theory Spec2Isabelle
  imports Complex_Main "HOL-Library.Word" "HOL-Library.Log_Nat"
begin

section \<open>Numbers and typed arrays\<close>

text \<open>
  The program is JavaScript.  It is modelled twice.  The first model, of this section and
  the three after it, computes over the reals: a number is an exact real or the value
  \<open>NaN\<close> that every read outside a typed array (\<open>undefined\<close>) turns into as soon as it
  enters arithmetic.  It serves for what the transform computes as a function on the reals
  and for the properties that do not depend on the values of the arithmetic: which cells a
  pass writes, that no divisor is zero, that no read goes below the stack.  These two events
  are error values there, so that their absence is a theorem; JavaScript itself would carry
  on with an infinity and with \<open>undefined\<close>.  The second model, of the section on floating
  point, has the numbers of the program: every operation is rounded to a 64-bit float, and
  the infinities are values.  \<open>RangeError\<close> is the exception of
  \<open>new Uint8ClampedArray(n)\<close> for negative \<open>n\<close>.
\<close>

datatype jsnum = NaN | Num real

datatype error = DivisionByZero | StackUnderflow | RangeError

text \<open>\<open>const INF = 1e20\<close> (\<open>INF\<close> is taken by the infimum of HOL).\<close>

definition INF_val :: real where
  "INF_val = 100000000000000000000"

type_synonym Float64Array = "jsnum list"
type_synonym Uint16Array = "16 word list"
type_synonym Uint8ClampedArray = "8 word list"

text \<open>Typed arrays have a fixed length: a read outside it is \<open>undefined\<close>, a write outside
  it is ignored.  Indices are JavaScript numbers, here integers.\<close>

definition f64_get :: "Float64Array \<Rightarrow> int \<Rightarrow> jsnum" where
  "f64_get a i = (if 0 \<le> i \<and> i < int (length a) then a ! nat i else NaN)"

definition f64_set :: "Float64Array \<Rightarrow> int \<Rightarrow> jsnum \<Rightarrow> Float64Array" where
  "f64_set a i x = (if 0 \<le> i \<and> i < int (length a) then a[nat i := x] else a)"

text \<open>\<open>v[k]\<close>: \<open>None\<close> is \<open>undefined\<close> (a read at or beyond the length); a stored index is
  kept modulo \<open>2 ^ 16\<close>.\<close>

definition u16_get :: "Uint16Array \<Rightarrow> int \<Rightarrow> error + int option" where
  "u16_get a k =
     (if k < 0 then Inl StackUnderflow
      else if k < int (length a) then Inr (Some (uint (a ! nat k)))
      else Inr None)"

definition u16_set :: "Uint16Array \<Rightarrow> int \<Rightarrow> int \<Rightarrow> Uint16Array" where
  "u16_set a k x = (if 0 \<le> k \<and> k < int (length a) then a[nat k := word_of_int x] else a)"

fun js_add :: "jsnum \<Rightarrow> jsnum \<Rightarrow> jsnum" where
  "js_add (Num a) (Num b) = Num (a + b)"
| "js_add _ _ = NaN"

fun js_sub :: "jsnum \<Rightarrow> jsnum \<Rightarrow> jsnum" where
  "js_sub (Num a) (Num b) = Num (a - b)"
| "js_sub _ _ = NaN"

fun js_mul :: "jsnum \<Rightarrow> jsnum \<Rightarrow> jsnum" where
  "js_mul (Num a) (Num b) = Num (a * b)"
| "js_mul _ _ = NaN"

fun js_div :: "jsnum \<Rightarrow> jsnum \<Rightarrow> error + jsnum" where
  "js_div a (Num b) =
     (if b = 0 then Inl DivisionByZero
      else Inr (case a of Num x \<Rightarrow> Num (x / b) | NaN \<Rightarrow> NaN))"
| "js_div a NaN = Inr NaN"

text \<open>Comparisons with \<open>NaN\<close> (or \<open>undefined\<close>) are false.\<close>

fun js_le :: "jsnum \<Rightarrow> jsnum \<Rightarrow> bool" where
  "js_le (Num a) (Num b) = (a \<le> b)"
| "js_le _ _ = False"

fun js_lt :: "jsnum \<Rightarrow> jsnum \<Rightarrow> bool" where
  "js_lt (Num a) (Num b) = (a < b)"
| "js_lt _ _ = False"

definition js_int :: "int \<Rightarrow> jsnum" where
  "js_int i = Num (real_of_int i)"

text \<open>An index read from \<open>v\<close>, used as a number and as an index into \<open>f\<close>.\<close>

definition js_idx :: "int option \<Rightarrow> jsnum" where
  "js_idx r = (case r of None \<Rightarrow> NaN | Some i \<Rightarrow> js_int i)"

definition f64_at :: "Float64Array \<Rightarrow> int option \<Rightarrow> jsnum" where
  "f64_at a r = (case r of None \<Rightarrow> NaN | Some i \<Rightarrow> f64_get a i)"

section \<open>The 1D squared distance transform\<close>

text \<open>\<open>s = (f[q] - f[r] + q * q - r * r) / (q - r) / 2\<close>\<close>

definition intersect :: "Float64Array \<Rightarrow> int \<Rightarrow> int option \<Rightarrow> error + jsnum" where
  "intersect f q r =
     (case js_div (js_sub (js_add (js_sub (f64_get f q) (f64_at f r))
                                  (js_mul (js_int q) (js_int q)))
                          (js_mul (js_idx r) (js_idx r)))
                  (js_sub (js_int q) (js_idx r)) of
        Inl e \<Rightarrow> Inl e
      | Inr t \<Rightarrow> js_div t (Num 2))"

text \<open>\<open>do { r = v[k]; s = ...; } while (s <= z[k] && --k > -1);\<close>
  The result is the value of \<open>k\<close> when the loop is left, and \<open>s\<close>.\<close>

function pop :: "Float64Array \<Rightarrow> Uint16Array \<Rightarrow> Float64Array \<Rightarrow> int \<Rightarrow> int
                 \<Rightarrow> error + (int \<times> jsnum)" where
  "pop f v z q k =
     (case u16_get v k of
        Inl e \<Rightarrow> Inl e
      | Inr r \<Rightarrow>
          (case intersect f q r of
             Inl e \<Rightarrow> Inl e
           | Inr s \<Rightarrow>
               if js_le s (f64_get z k)
               then (if k - 1 > -1 then pop f v z q (k - 1) else Inr (k - 1, s))
               else Inr (k, s)))"
  by pat_completeness auto
termination
  by (relation "measure (\<lambda>(f, v, z, q, k). nat (k + 1))") auto

text \<open>\<open>for (q = 0; q < length; q++) f[q] = grid[offset + q * stride];\<close>\<close>

function sample :: "Float64Array \<Rightarrow> int \<Rightarrow> int \<Rightarrow> int \<Rightarrow> Float64Array \<Rightarrow> int
                    \<Rightarrow> Float64Array" where
  "sample grid offset stride len f q =
     (if q < len
      then sample grid offset stride len (f64_set f q (f64_get grid (offset + q * stride))) (q + 1)
      else f)"
  by pat_completeness auto
termination
  by (relation "measure (\<lambda>(grid, offset, stride, len, f, q). nat (len - q))") auto

text \<open>The loop \<open>for (q = 1, k = 0, s = 0; q < length; q++)\<close> that builds the lower envelope.\<close>

function envelope :: "int \<Rightarrow> Float64Array \<Rightarrow> Uint16Array \<Rightarrow> Float64Array \<Rightarrow> int \<Rightarrow> int
                      \<Rightarrow> error + (Uint16Array \<times> Float64Array)" where
  "envelope len f v z q k =
     (if q < len
      then (case pop f v z q k of
              Inl e \<Rightarrow> Inl e
            | Inr (k, s) \<Rightarrow>
                let k = k + 1;
                    v = u16_set v k q;
                    z = f64_set z k s;
                    z = f64_set z (k + 1) (Num INF_val)
                in envelope len f v z (q + 1) k)
      else Inr (v, z))"
  by pat_completeness auto
termination
  by (relation "measure (\<lambda>(len, f, v, z, q, k). nat (len - q))") auto

text \<open>\<open>while (z[k + 1] < q) k++;\<close>  The loop stops at the latest where \<open>z\<close> ends, since
  \<open>undefined < q\<close> is false.\<close>

function cursor :: "Float64Array \<Rightarrow> int \<Rightarrow> int \<Rightarrow> int" where
  "cursor z q k = (if js_lt (f64_get z (k + 1)) (js_int q) then cursor z q (k + 1) else k)"
  by pat_completeness auto
termination
proof (relation "measure (\<lambda>(z, q, k). nat (int (length z) - k))")
  show "wf (measure (\<lambda>(z, q, k). nat (int (length z) - k)))"
    by simp
next
  fix z :: Float64Array and q k :: int
  assume lt: "js_lt (f64_get z (k + 1)) (js_int q)"
  have "f64_get z (k + 1) \<noteq> NaN"
    using lt by (cases "f64_get z (k + 1)") simp_all
  then have "k + 1 < int (length z)"
    by (auto simp: f64_get_def split: if_splits)
  then show "((z, q, k + 1), (z, q, k)) \<in> measure (\<lambda>(z, q, k). nat (int (length z) - k))"
    by simp
qed

text \<open>The output loop: \<open>grid[offset + q * stride] = f[r] + (q - r) * (q - r)\<close> with
  \<open>r = v[k]\<close>.\<close>

definition parabola :: "Float64Array \<Rightarrow> int \<Rightarrow> int option \<Rightarrow> jsnum" where
  "parabola f q r =
     js_add (f64_at f r)
            (js_mul (js_sub (js_int q) (js_idx r)) (js_sub (js_int q) (js_idx r)))"

function scan :: "int \<Rightarrow> int \<Rightarrow> int \<Rightarrow> Float64Array \<Rightarrow> Uint16Array \<Rightarrow> Float64Array
                  \<Rightarrow> Float64Array \<Rightarrow> int \<Rightarrow> int \<Rightarrow> error + Float64Array" where
  "scan offset stride len f v z grid q k =
     (if q < len
      then let k = cursor z q k in
           (case u16_get v k of
              Inl e \<Rightarrow> Inl e
            | Inr r \<Rightarrow>
                scan offset stride len f v z
                     (f64_set grid (offset + q * stride) (parabola f q r)) (q + 1) k)
      else Inr grid)"
  by pat_completeness auto
termination
  by (relation "measure (\<lambda>(offset, stride, len, f, v, z, grid, q, k). nat (len - q))") auto

definition edt1d :: "Float64Array \<Rightarrow> int \<Rightarrow> int \<Rightarrow> int
                     \<Rightarrow> Float64Array \<Rightarrow> Uint16Array \<Rightarrow> Float64Array
                     \<Rightarrow> error + (Float64Array \<times> Float64Array \<times> Uint16Array \<times> Float64Array)" where
  "edt1d grid offset stride len f v z =
     (let v = u16_set v 0 0;
          z = f64_set z 0 (Num (- INF_val));
          z = f64_set z 1 (Num INF_val);
          f = sample grid offset stride len f 0
      in case envelope len f v z 1 0 of
           Inl e \<Rightarrow> Inl e
         | Inr (v, z) \<Rightarrow>
             (case scan offset stride len f v z grid 0 0 of
                Inl e \<Rightarrow> Inl e
              | Inr grid \<Rightarrow> Inr (grid, f, v, z)))"

section \<open>The 2D squared distance transform\<close>

text \<open>\<open>for (let x = 0; x < width; x++) edt1d(data, x, width, height, f, v, z);\<close>\<close>

function edt_columns :: "int \<Rightarrow> int \<Rightarrow> int \<Rightarrow> Float64Array \<Rightarrow> Float64Array \<Rightarrow> Uint16Array
                         \<Rightarrow> Float64Array
                         \<Rightarrow> error + (Float64Array \<times> Float64Array \<times> Uint16Array \<times> Float64Array)" where
  "edt_columns width height x data f v z =
     (if x < width
      then (case edt1d data x width height f v z of
              Inl e \<Rightarrow> Inl e
            | Inr (data, f, v, z) \<Rightarrow> edt_columns width height (x + 1) data f v z)
      else Inr (data, f, v, z))"
  by pat_completeness auto
termination
  by (relation "measure (\<lambda>(width, height, x, data, f, v, z). nat (width - x))") auto

text \<open>\<open>for (let y = 0; y < height; y++) edt1d(data, y * width, 1, width, f, v, z);\<close>\<close>

function edt_rows :: "int \<Rightarrow> int \<Rightarrow> int \<Rightarrow> Float64Array \<Rightarrow> Float64Array \<Rightarrow> Uint16Array
                      \<Rightarrow> Float64Array
                      \<Rightarrow> error + (Float64Array \<times> Float64Array \<times> Uint16Array \<times> Float64Array)" where
  "edt_rows width height y data f v z =
     (if y < height
      then (case edt1d data (y * width) 1 width f v z of
              Inl e \<Rightarrow> Inl e
            | Inr (data, f, v, z) \<Rightarrow> edt_rows width height (y + 1) data f v z)
      else Inr (data, f, v, z))"
  by pat_completeness auto
termination
  by (relation "measure (\<lambda>(width, height, y, data, f, v, z). nat (height - y))") auto

definition edt :: "Float64Array \<Rightarrow> int \<Rightarrow> int \<Rightarrow> Float64Array \<Rightarrow> Uint16Array \<Rightarrow> Float64Array
                   \<Rightarrow> error + (Float64Array \<times> Float64Array \<times> Uint16Array \<times> Float64Array)" where
  "edt data width height f v z =
     (case edt_columns width height 0 data f v z of
        Inl e \<Rightarrow> Inl e
      | Inr (data, f, v, z) \<Rightarrow> edt_rows width height 0 data f v z)"

section \<open>Seeding the cost grids and quantizing\<close>

text \<open>\<open>a.fill(x, 0, end)\<close>: a negative \<open>end\<close> counts from the length, and the range is
  cut to the array.\<close>

definition f64_fill :: "Float64Array \<Rightarrow> jsnum \<Rightarrow> int \<Rightarrow> Float64Array" where
  "f64_fill a x e =
     (let n = (if e < 0 then max (int (length a) + e) 0 else min e (int (length a)))
      in replicate (nat n) x @ drop (nat n) a)"

text \<open>\<open>x >> 1\<close>: \<open>x\<close> is taken to a signed 32-bit integer and shifted arithmetically.\<close>

definition sar1 :: "int \<Rightarrow> int" where
  "sar1 x = sint (signed_drop_bit 1 (word_of_int x :: 32 word))"

definition u8_get :: "Uint8ClampedArray \<Rightarrow> int \<Rightarrow> jsnum" where
  "u8_get a i = (if 0 \<le> i \<and> i < int (length a) then js_int (uint (a ! nat i)) else NaN)"

text \<open>\<open>imgData.data[4 * (y * glyphWidth + x) + 3] / 255\<close>\<close>

definition alpha :: "Uint8ClampedArray \<Rightarrow> int \<Rightarrow> int \<Rightarrow> int \<Rightarrow> jsnum" where
  "alpha imgData glyphWidth x y =
     (case u8_get imgData (4 * (y * glyphWidth + x) + 3) of
        Num b \<Rightarrow> Num (b / 255)
      | NaN \<Rightarrow> NaN)"

fun Math_max :: "jsnum \<Rightarrow> jsnum \<Rightarrow> jsnum" where
  "Math_max (Num a) (Num b) = Num (max a b)"
| "Math_max _ _ = NaN"

definition Math_pow2 :: "jsnum \<Rightarrow> jsnum" where
  "Math_pow2 x = (case x of Num a \<Rightarrow> Num (a ^ 2) | NaN \<Rightarrow> NaN)"

text \<open>\<open>a === 1 ? 0 : a === 0 ? INF : Math.pow(Math.max(0, 0.5 - a), 2)\<close>\<close>

definition outer_cost :: "jsnum \<Rightarrow> jsnum" where
  "outer_cost a =
     (if a = Num 1 then Num 0
      else if a = Num 0 then Num INF_val
      else Math_pow2 (Math_max (Num 0) (js_sub (Num (1 / 2)) a)))"

text \<open>\<open>a === 1 ? INF : a === 0 ? 0 : Math.pow(Math.max(0, a - 0.5), 2)\<close>\<close>

definition inner_cost :: "jsnum \<Rightarrow> jsnum" where
  "inner_cost a =
     (if a = Num 1 then Num INF_val
      else if a = Num 0 then Num 0
      else Math_pow2 (Math_max (Num 0) (js_sub a (Num (1 / 2)))))"

text \<open>The inner loop \<open>for (let x = 0; x < glyphWidth; x++)\<close> of the seeding, with
  \<open>j = (y + offset) * width + x + offset\<close>.\<close>

function seed_row :: "Uint8ClampedArray \<Rightarrow> int \<Rightarrow> int \<Rightarrow> int \<Rightarrow> int \<Rightarrow> int
                      \<Rightarrow> Float64Array \<Rightarrow> Float64Array \<Rightarrow> Float64Array \<times> Float64Array" where
  "seed_row imgData width glyphWidth offset y x gridOuter gridInner =
     (if x < glyphWidth
      then let j = (y + offset) * width + x + offset;
               a = alpha imgData glyphWidth x y
           in seed_row imgData width glyphWidth offset y (x + 1)
                (f64_set gridOuter j (outer_cost a)) (f64_set gridInner j (inner_cost a))
      else (gridOuter, gridInner))"
  by pat_completeness auto
termination
  by (relation "measure (\<lambda>(imgData, width, glyphWidth, offset, y, x, gridOuter, gridInner).
        nat (glyphWidth - x))") auto

text \<open>The outer loop \<open>for (let y = 0; y < glyphHeight; y++)\<close>.\<close>

function seed_rows :: "Uint8ClampedArray \<Rightarrow> int \<Rightarrow> int \<Rightarrow> int \<Rightarrow> int \<Rightarrow> int
                       \<Rightarrow> Float64Array \<Rightarrow> Float64Array \<Rightarrow> Float64Array \<times> Float64Array" where
  "seed_rows imgData width glyphWidth glyphHeight offset y gridOuter gridInner =
     (if y < glyphHeight
      then (case seed_row imgData width glyphWidth offset y 0 gridOuter gridInner of
              (gridOuter, gridInner) \<Rightarrow>
                seed_rows imgData width glyphWidth glyphHeight offset (y + 1) gridOuter gridInner)
      else (gridOuter, gridInner))"
  by pat_completeness auto
termination
  by (relation "measure (\<lambda>(imgData, width, glyphWidth, glyphHeight, offset, y, gridOuter, gridInner).
        nat (glyphHeight - y))") auto

text \<open>Lines 79 to 92 of \<open>draw\<close>: both fills, the offset and the two loops.\<close>

definition seed :: "Uint8ClampedArray \<Rightarrow> int \<Rightarrow> int \<Rightarrow> int \<Rightarrow> int
                    \<Rightarrow> Float64Array \<Rightarrow> Float64Array \<Rightarrow> Float64Array \<times> Float64Array" where
  "seed imgData width height glyphWidth glyphHeight gridOuter gridInner =
     (let gridOuter = f64_fill gridOuter (Num INF_val) (width * height);
          gridInner = f64_fill gridInner (Num 0) (width * height);
          offset = sar1 (width - glyphWidth)
      in seed_rows imgData width glyphWidth glyphHeight offset 0 gridOuter gridInner)"

fun Math_sqrt :: "jsnum \<Rightarrow> jsnum" where
  "Math_sqrt (Num a) = (if a < 0 then NaN else Num (sqrt a))"
| "Math_sqrt NaN = NaN"

text \<open>\<open>Math.round\<close> rounds to the nearest integer, a tie upwards.\<close>

fun Math_round :: "jsnum \<Rightarrow> jsnum" where
  "Math_round (Num a) = Num (of_int \<lfloor>a + 1 / 2\<rfloor>)"
| "Math_round NaN = NaN"

text \<open>The conversion of a store into a \<open>Uint8ClampedArray\<close>: \<open>NaN\<close> is 0, the value is
  clamped to 0 and 255 and rounded to the nearest integer, a tie to the even one.\<close>

definition ToUint8Clamp :: "jsnum \<Rightarrow> 8 word" where
  "ToUint8Clamp x =
     (case x of
        NaN \<Rightarrow> 0
      | Num a \<Rightarrow>
          if a \<le> 0 then 0
          else if 255 \<le> a then 255
          else let fl = \<lfloor>a\<rfloor> in
               if of_int fl + 1 / 2 < a then word_of_int (fl + 1)
               else if a < of_int fl + 1 / 2 then word_of_int fl
               else if even fl then word_of_int fl
               else word_of_int (fl + 1))"

definition u8_set :: "Uint8ClampedArray \<Rightarrow> int \<Rightarrow> jsnum \<Rightarrow> Uint8ClampedArray" where
  "u8_set a i x = (if 0 \<le> i \<and> i < int (length a) then a[nat i := ToUint8Clamp x] else a)"

text \<open>\<open>Math.round(255 - 255 * (d / this.radius + this.cutoff))\<close> with
  \<open>d = Math.sqrt(gridOuter[i]) - Math.sqrt(gridInner[i])\<close>\<close>

definition sdf_value :: "real \<Rightarrow> real \<Rightarrow> jsnum \<Rightarrow> jsnum \<Rightarrow> error + jsnum" where
  "sdf_value radius cutoff outer inner =
     (let d = js_sub (Math_sqrt outer) (Math_sqrt inner)
      in case js_div d (Num radius) of
           Inl e \<Rightarrow> Inl e
         | Inr t \<Rightarrow> Inr (Math_round (js_sub (Num 255) (js_mul (Num 255) (js_add t (Num cutoff))))))"

text \<open>\<open>for (let i = 0; i < width * height; i++)\<close>, the loop that writes \<open>data\<close>.\<close>

function quantize :: "real \<Rightarrow> real \<Rightarrow> Float64Array \<Rightarrow> Float64Array \<Rightarrow> int \<Rightarrow> int
                      \<Rightarrow> Uint8ClampedArray \<Rightarrow> error + Uint8ClampedArray" where
  "quantize radius cutoff gridOuter gridInner n i data =
     (if i < n
      then (case sdf_value radius cutoff (f64_get gridOuter i) (f64_get gridInner i) of
              Inl e \<Rightarrow> Inl e
            | Inr b \<Rightarrow> quantize radius cutoff gridOuter gridInner n (i + 1) (u8_set data i b))
      else Inr data)"
  by pat_completeness auto
termination
  by (relation "measure (\<lambda>(radius, cutoff, gridOuter, gridInner, n, i, data). nat (n - i))") auto

section \<open>The program in 64-bit floating point\<close>

text \<open>
  The definitions above compute over the reals.  The ones of this section follow the same
  source lines with the numbers of the program: the finite 64-bit floats, the two infinities
  and \<open>NaN\<close>, every operation rounded to the nearest float with a tie to the even one,
  gradual underflow, and overflow to an infinity.  Nothing raises here: a division by zero
  is an infinity or \<open>NaN\<close>, and a read outside a typed array is \<open>undefined\<close>.  The sign of a
  zero is not modelled; the program could observe it only through a divisor \<open>-0\<close>.
\<close>

datatype double = NaN64 | Inf64 | NegInf64 | Fin real

text \<open>\<open>\<lfloor>log\<^sub>2 x\<rfloor>\<close> for \<open>x > 0\<close>, by counting binary digits.\<close>

definition ilog2 :: "real \<Rightarrow> int" where
  "ilog2 x = (if 1 \<le> x then bitlen \<lfloor>x\<rfloor> - 1 else - bitlen (\<lceil>1 / x\<rceil> - 1))"

definition pow2 :: "int \<Rightarrow> real" where
  "pow2 e = (if 0 \<le> e then 2 ^ nat e else 1 / 2 ^ nat (- e))"

text \<open>The nearest integer, a tie to the even one.\<close>

definition round_even :: "real \<Rightarrow> int" where
  "round_even y =
     (let n = \<lfloor>y\<rfloor>; d = y - of_int n
      in if d < 1 / 2 then n else if 1 / 2 < d then n + 1 else if even n then n else n + 1)"

text \<open>The float nearest to a real: 53 significant bits, exponents from \<open>-1022\<close> (below it
  the spacing stays \<open>2\<^sup>-\<^sup>1\<^sup>0\<^sup>7\<^sup>4\<close>), and an infinity from \<open>2\<^sup>1\<^sup>0\<^sup>2\<^sup>4\<close> on.\<close>

definition round64 :: "real \<Rightarrow> double" where
  "round64 x =
     (if x = 0 then Fin 0
      else let e = max (ilog2 \<bar>x\<bar>) (- 1022);
               u = pow2 (e - 52);
               y = of_int (round_even (x / u)) * u
           in if 1024 \<le> ilog2 \<bar>y\<bar> then (if 0 < x then Inf64 else NegInf64)
              else Fin y)"

fun neg64 :: "double \<Rightarrow> double" where
  "neg64 (Fin a) = Fin (- a)"
| "neg64 Inf64 = NegInf64"
| "neg64 NegInf64 = Inf64"
| "neg64 NaN64 = NaN64"

fun add64 :: "double \<Rightarrow> double \<Rightarrow> double" where
  "add64 (Fin a) (Fin b) = round64 (a + b)"
| "add64 NaN64 _ = NaN64"
| "add64 _ NaN64 = NaN64"
| "add64 Inf64 NegInf64 = NaN64"
| "add64 NegInf64 Inf64 = NaN64"
| "add64 (Fin a) y = y"
| "add64 x _ = x"

definition sub64 :: "double \<Rightarrow> double \<Rightarrow> double" where
  "sub64 x y = add64 x (neg64 y)"

fun mul64 :: "double \<Rightarrow> double \<Rightarrow> double" where
  "mul64 (Fin a) (Fin b) = round64 (a * b)"
| "mul64 NaN64 _ = NaN64"
| "mul64 _ NaN64 = NaN64"
| "mul64 (Fin a) y = (if a = 0 then NaN64 else if 0 < a then y else neg64 y)"
| "mul64 x (Fin b) = (if b = 0 then NaN64 else if 0 < b then x else neg64 x)"
| "mul64 Inf64 y = y"
| "mul64 NegInf64 y = neg64 y"

fun div64 :: "double \<Rightarrow> double \<Rightarrow> double" where
  "div64 (Fin a) (Fin b) =
     (if b = 0 then (if a = 0 then NaN64 else if 0 < a then Inf64 else NegInf64)
      else round64 (a / b))"
| "div64 NaN64 _ = NaN64"
| "div64 _ NaN64 = NaN64"
| "div64 (Fin a) _ = Fin 0"
| "div64 x (Fin b) = (if 0 \<le> b then x else neg64 x)"
| "div64 _ _ = NaN64"

text \<open>The comparisons \<open><=\<close> and \<open><\<close>, false where an operand is \<open>NaN\<close> or \<open>undefined\<close>.\<close>

fun le64 :: "double \<Rightarrow> double \<Rightarrow> bool" where
  "le64 (Fin a) (Fin b) = (a \<le> b)"
| "le64 NaN64 _ = False"
| "le64 _ NaN64 = False"
| "le64 NegInf64 _ = True"
| "le64 _ Inf64 = True"
| "le64 _ _ = False"

fun lt64 :: "double \<Rightarrow> double \<Rightarrow> bool" where
  "lt64 (Fin a) (Fin b) = (a < b)"
| "lt64 NaN64 _ = False"
| "lt64 _ NaN64 = False"
| "lt64 Inf64 _ = False"
| "lt64 _ NegInf64 = False"
| "lt64 _ _ = True"

text \<open>A loop counter or an index as a number; integers below \<open>2\<^sup>5\<^sup>3\<close> are floats.\<close>

definition int64 :: "int \<Rightarrow> double" where
  "int64 i = Fin (real_of_int i)"

type_synonym Float64Array64 = "double list"

definition get64 :: "Float64Array64 \<Rightarrow> int \<Rightarrow> double" where
  "get64 a i = (if 0 \<le> i \<and> i < int (length a) then a ! nat i else NaN64)"

definition set64 :: "Float64Array64 \<Rightarrow> int \<Rightarrow> double \<Rightarrow> Float64Array64" where
  "set64 a i x = (if 0 \<le> i \<and> i < int (length a) then a[nat i := x] else a)"

text \<open>Cell \<open>(x, y)\<close> of a grid of width \<open>w\<close>.\<close>

definition cell64 :: "Float64Array64 \<Rightarrow> int \<Rightarrow> int \<Rightarrow> int \<Rightarrow> double" where
  "cell64 grid w x y = get64 grid (y * w + x)"

text \<open>\<open>v[k]\<close>, with \<open>None\<close> for \<open>undefined\<close> on either side of the array.\<close>

definition u16_at :: "Uint16Array \<Rightarrow> int \<Rightarrow> int option" where
  "u16_at a k = (if 0 \<le> k \<and> k < int (length a) then Some (uint (a ! nat k)) else None)"

definition idx64 :: "int option \<Rightarrow> double" where
  "idx64 r = (case r of None \<Rightarrow> NaN64 | Some i \<Rightarrow> int64 i)"

definition at64 :: "Float64Array64 \<Rightarrow> int option \<Rightarrow> double" where
  "at64 a r = (case r of None \<Rightarrow> NaN64 | Some i \<Rightarrow> get64 a i)"

text \<open>\<open>s = (f[q] - f[r] + q * q - r * r) / (q - r) / 2\<close>\<close>

definition intersect64 :: "Float64Array64 \<Rightarrow> int \<Rightarrow> int option \<Rightarrow> double" where
  "intersect64 f q r =
     div64 (div64 (sub64 (add64 (sub64 (get64 f q) (at64 f r))
                                (mul64 (int64 q) (int64 q)))
                         (mul64 (idx64 r) (idx64 r)))
                  (sub64 (int64 q) (idx64 r)))
           (Fin 2)"

text \<open>\<open>do { r = v[k]; s = ...; } while (s <= z[k] && --k > -1);\<close>\<close>

function pop64 :: "Float64Array64 \<Rightarrow> Uint16Array \<Rightarrow> Float64Array64 \<Rightarrow> int \<Rightarrow> int
                   \<Rightarrow> int \<times> double" where
  "pop64 f v z q k =
     (let s = intersect64 f q (u16_at v k)
      in if le64 s (get64 z k)
         then (if k - 1 > -1 then pop64 f v z q (k - 1) else (k - 1, s))
         else (k, s))"
  by pat_completeness auto
termination
  by (relation "measure (\<lambda>(f, v, z, q, k). nat (k + 1))") auto

text \<open>\<open>for (q = 0; q < length; q++) f[q] = grid[offset + q * stride];\<close>\<close>

function sample64 :: "Float64Array64 \<Rightarrow> int \<Rightarrow> int \<Rightarrow> int \<Rightarrow> Float64Array64 \<Rightarrow> int
                      \<Rightarrow> Float64Array64" where
  "sample64 grid offset stride len f q =
     (if q < len
      then sample64 grid offset stride len (set64 f q (get64 grid (offset + q * stride))) (q + 1)
      else f)"
  by pat_completeness auto
termination
  by (relation "measure (\<lambda>(grid, offset, stride, len, f, q). nat (len - q))") auto

text \<open>\<open>for (q = 1, k = 0, s = 0; q < length; q++) { ... k++; v[k] = q; z[k] = s;
  z[k + 1] = INF; }\<close>\<close>

function envelope64 :: "int \<Rightarrow> Float64Array64 \<Rightarrow> Uint16Array \<Rightarrow> Float64Array64 \<Rightarrow> int \<Rightarrow> int
                        \<Rightarrow> Uint16Array \<times> Float64Array64" where
  "envelope64 len f v z q k =
     (if q < len
      then (case pop64 f v z q k of
              (k, s) \<Rightarrow>
                let k = k + 1;
                    v = u16_set v k q;
                    z = set64 z k s;
                    z = set64 z (k + 1) (Fin INF_val)
                in envelope64 len f v z (q + 1) k)
      else (v, z))"
  by pat_completeness auto
termination
  by (relation "measure (\<lambda>(len, f, v, z, q, k). nat (len - q))") auto

text \<open>\<open>while (z[k + 1] < q) k++;\<close>\<close>

function cursor64 :: "Float64Array64 \<Rightarrow> int \<Rightarrow> int \<Rightarrow> int" where
  "cursor64 z q k = (if lt64 (get64 z (k + 1)) (int64 q) then cursor64 z q (k + 1) else k)"
  by pat_completeness auto
termination
proof (relation "measure (\<lambda>(z, q, k). nat (int (length z) - k))")
  show "wf (measure (\<lambda>(z, q, k). nat (int (length z) - k)))"
    by simp
next
  fix z :: Float64Array64 and q k :: int
  assume lt: "lt64 (get64 z (k + 1)) (int64 q)"
  have "get64 z (k + 1) \<noteq> NaN64"
    using lt by (cases "get64 z (k + 1)") simp_all
  then have "k + 1 < int (length z)"
    by (auto simp: get64_def split: if_splits)
  then show "((z, q, k + 1), (z, q, k)) \<in> measure (\<lambda>(z, q, k). nat (int (length z) - k))"
    by simp
qed

text \<open>\<open>f[r] + (q - r) * (q - r)\<close>\<close>

definition parabola64 :: "Float64Array64 \<Rightarrow> int \<Rightarrow> int option \<Rightarrow> double" where
  "parabola64 f q r =
     add64 (at64 f r)
           (mul64 (sub64 (int64 q) (idx64 r)) (sub64 (int64 q) (idx64 r)))"

text \<open>\<open>for (q = 0, k = 0; q < length; q++) { ...; r = v[k];
  grid[offset + q * stride] = f[r] + (q - r) * (q - r); }\<close>\<close>

function scan64 :: "int \<Rightarrow> int \<Rightarrow> int \<Rightarrow> Float64Array64 \<Rightarrow> Uint16Array \<Rightarrow> Float64Array64
                    \<Rightarrow> Float64Array64 \<Rightarrow> int \<Rightarrow> int \<Rightarrow> Float64Array64" where
  "scan64 offset stride len f v z grid q k =
     (if q < len
      then let k = cursor64 z q k
           in scan64 offset stride len f v z
                (set64 grid (offset + q * stride) (parabola64 f q (u16_at v k))) (q + 1) k
      else grid)"
  by pat_completeness auto
termination
  by (relation "measure (\<lambda>(offset, stride, len, f, v, z, grid, q, k). nat (len - q))") auto

text \<open>\<open>edt1d(grid, offset, stride, length, f, v, z)\<close>: the grid and the scratch buffers as
  the call leaves them.\<close>

definition edt1d64 :: "Float64Array64 \<Rightarrow> int \<Rightarrow> int \<Rightarrow> int
                       \<Rightarrow> Float64Array64 \<Rightarrow> Uint16Array \<Rightarrow> Float64Array64
                       \<Rightarrow> Float64Array64 \<times> Float64Array64 \<times> Uint16Array \<times> Float64Array64" where
  "edt1d64 grid offset stride len f v z =
     (let v = u16_set v 0 0;
          z = set64 z 0 (Fin (- INF_val));
          z = set64 z 1 (Fin INF_val);
          f = sample64 grid offset stride len f 0
      in case envelope64 len f v z 1 0 of
           (v, z) \<Rightarrow> (scan64 offset stride len f v z grid 0 0, f, v, z))"

text \<open>\<open>for (let x = 0; x < width; x++) edt1d(data, x, width, height, f, v, z);\<close>\<close>

function edt_columns64 :: "int \<Rightarrow> int \<Rightarrow> int \<Rightarrow> Float64Array64 \<Rightarrow> Float64Array64 \<Rightarrow> Uint16Array
                           \<Rightarrow> Float64Array64
                           \<Rightarrow> Float64Array64 \<times> Float64Array64 \<times> Uint16Array \<times> Float64Array64" where
  "edt_columns64 width height x data f v z =
     (if x < width
      then (case edt1d64 data x width height f v z of
              (data, f, v, z) \<Rightarrow> edt_columns64 width height (x + 1) data f v z)
      else (data, f, v, z))"
  by pat_completeness auto
termination
  by (relation "measure (\<lambda>(width, height, x, data, f, v, z). nat (width - x))") auto

text \<open>\<open>for (let y = 0; y < height; y++) edt1d(data, y * width, 1, width, f, v, z);\<close>\<close>

function edt_rows64 :: "int \<Rightarrow> int \<Rightarrow> int \<Rightarrow> Float64Array64 \<Rightarrow> Float64Array64 \<Rightarrow> Uint16Array
                        \<Rightarrow> Float64Array64
                        \<Rightarrow> Float64Array64 \<times> Float64Array64 \<times> Uint16Array \<times> Float64Array64" where
  "edt_rows64 width height y data f v z =
     (if y < height
      then (case edt1d64 data (y * width) 1 width f v z of
              (data, f, v, z) \<Rightarrow> edt_rows64 width height (y + 1) data f v z)
      else (data, f, v, z))"
  by pat_completeness auto
termination
  by (relation "measure (\<lambda>(width, height, y, data, f, v, z). nat (height - y))") auto

definition edt64 :: "Float64Array64 \<Rightarrow> int \<Rightarrow> int \<Rightarrow> Float64Array64 \<Rightarrow> Uint16Array
                     \<Rightarrow> Float64Array64
                     \<Rightarrow> Float64Array64 \<times> Float64Array64 \<times> Uint16Array \<times> Float64Array64" where
  "edt64 data width height f v z =
     (case edt_columns64 width height 0 data f v z of
        (data, f, v, z) \<Rightarrow> edt_rows64 width height 0 data f v z)"

text \<open>\<open>Math.max\<close>, \<open>Math.pow(x, 2)\<close> (taken as the correctly rounded square), \<open>Math.sqrt\<close>
  (correctly rounded) and \<open>Math.round\<close> (the nearest integer, a tie upwards; the result is
  a float, since floats from \<open>2\<^sup>5\<^sup>2\<close> on are integers).\<close>

definition Math_max64 :: "double \<Rightarrow> double \<Rightarrow> double" where
  "Math_max64 x y = (if x = NaN64 \<or> y = NaN64 then NaN64 else if le64 x y then y else x)"

definition Math_pow2_64 :: "double \<Rightarrow> double" where
  "Math_pow2_64 x = mul64 x x"

fun Math_sqrt64 :: "double \<Rightarrow> double" where
  "Math_sqrt64 (Fin a) = (if a < 0 then NaN64 else round64 (sqrt a))"
| "Math_sqrt64 Inf64 = Inf64"
| "Math_sqrt64 _ = NaN64"

fun Math_round64 :: "double \<Rightarrow> double" where
  "Math_round64 (Fin a) = Fin (of_int \<lfloor>a + 1 / 2\<rfloor>)"
| "Math_round64 x = x"

text \<open>\<open>a.fill(x, 0, end)\<close>\<close>

definition fill64 :: "Float64Array64 \<Rightarrow> double \<Rightarrow> int \<Rightarrow> Float64Array64" where
  "fill64 a x e =
     (let n = (if e < 0 then max (int (length a) + e) 0 else min e (int (length a)))
      in replicate (nat n) x @ drop (nat n) a)"

definition u8_at :: "Uint8ClampedArray \<Rightarrow> int \<Rightarrow> double" where
  "u8_at a i = (if 0 \<le> i \<and> i < int (length a) then int64 (uint (a ! nat i)) else NaN64)"

text \<open>\<open>imgData.data[4 * (y * glyphWidth + x) + 3] / 255\<close>\<close>

definition alpha64 :: "Uint8ClampedArray \<Rightarrow> int \<Rightarrow> int \<Rightarrow> int \<Rightarrow> double" where
  "alpha64 imgData glyphWidth x y =
     div64 (u8_at imgData (4 * (y * glyphWidth + x) + 3)) (Fin 255)"

text \<open>\<open>a === 1 ? 0 : a === 0 ? INF : Math.pow(Math.max(0, 0.5 - a), 2)\<close>\<close>

definition outer_cost64 :: "double \<Rightarrow> double" where
  "outer_cost64 a =
     (if a = Fin 1 then Fin 0
      else if a = Fin 0 then Fin INF_val
      else Math_pow2_64 (Math_max64 (Fin 0) (sub64 (Fin (1 / 2)) a)))"

text \<open>\<open>a === 1 ? INF : a === 0 ? 0 : Math.pow(Math.max(0, a - 0.5), 2)\<close>\<close>

definition inner_cost64 :: "double \<Rightarrow> double" where
  "inner_cost64 a =
     (if a = Fin 1 then Fin INF_val
      else if a = Fin 0 then Fin 0
      else Math_pow2_64 (Math_max64 (Fin 0) (sub64 a (Fin (1 / 2)))))"

text \<open>\<open>for (let x = 0; x < glyphWidth; x++) { const j = (y + offset) * width + x + offset;
  ...; gridOuter[j] = ...; gridInner[j] = ...; }\<close>\<close>

function seed_row64 :: "Uint8ClampedArray \<Rightarrow> int \<Rightarrow> int \<Rightarrow> int \<Rightarrow> int \<Rightarrow> int
                        \<Rightarrow> Float64Array64 \<Rightarrow> Float64Array64
                        \<Rightarrow> Float64Array64 \<times> Float64Array64" where
  "seed_row64 imgData width glyphWidth offset y x gridOuter gridInner =
     (if x < glyphWidth
      then let j = (y + offset) * width + x + offset;
               a = alpha64 imgData glyphWidth x y
           in seed_row64 imgData width glyphWidth offset y (x + 1)
                (set64 gridOuter j (outer_cost64 a)) (set64 gridInner j (inner_cost64 a))
      else (gridOuter, gridInner))"
  by pat_completeness auto
termination
  by (relation "measure (\<lambda>(imgData, width, glyphWidth, offset, y, x, gridOuter, gridInner).
        nat (glyphWidth - x))") auto

text \<open>\<open>for (let y = 0; y < glyphHeight; y++)\<close>\<close>

function seed_rows64 :: "Uint8ClampedArray \<Rightarrow> int \<Rightarrow> int \<Rightarrow> int \<Rightarrow> int \<Rightarrow> int
                         \<Rightarrow> Float64Array64 \<Rightarrow> Float64Array64
                         \<Rightarrow> Float64Array64 \<times> Float64Array64" where
  "seed_rows64 imgData width glyphWidth glyphHeight offset y gridOuter gridInner =
     (if y < glyphHeight
      then (case seed_row64 imgData width glyphWidth offset y 0 gridOuter gridInner of
              (gridOuter, gridInner) \<Rightarrow>
                seed_rows64 imgData width glyphWidth glyphHeight offset (y + 1)
                  gridOuter gridInner)
      else (gridOuter, gridInner))"
  by pat_completeness auto
termination
  by (relation "measure (\<lambda>(imgData, width, glyphWidth, glyphHeight, offset, y, gridOuter, gridInner).
        nat (glyphHeight - y))") auto

text \<open>Lines 79 to 92 of \<open>draw\<close>: \<open>gridOuter.fill(INF, 0, width * height)\<close>,
  \<open>gridInner.fill(0, 0, width * height)\<close>, \<open>offset = (width - glyphWidth) >> 1\<close> and the two
  loops.\<close>

definition seed64 :: "Uint8ClampedArray \<Rightarrow> int \<Rightarrow> int \<Rightarrow> int \<Rightarrow> int
                      \<Rightarrow> Float64Array64 \<Rightarrow> Float64Array64
                      \<Rightarrow> Float64Array64 \<times> Float64Array64" where
  "seed64 imgData width height glyphWidth glyphHeight gridOuter gridInner =
     (let gridOuter = fill64 gridOuter (Fin INF_val) (width * height);
          gridInner = fill64 gridInner (Fin 0) (width * height);
          offset = sar1 (width - glyphWidth)
      in seed_rows64 imgData width glyphWidth glyphHeight offset 0 gridOuter gridInner)"

text \<open>The conversion of a store into a \<open>Uint8ClampedArray\<close>: \<open>NaN\<close> is 0, the value is
  clamped to 0 and 255 and rounded to the nearest integer, a tie to the even one.\<close>

definition ToUint8Clamp64 :: "double \<Rightarrow> 8 word" where
  "ToUint8Clamp64 x =
     (case x of
        NaN64 \<Rightarrow> 0
      | Inf64 \<Rightarrow> 255
      | NegInf64 \<Rightarrow> 0
      | Fin a \<Rightarrow>
          if a \<le> 0 then 0
          else if 255 \<le> a then 255
          else word_of_int (round_even a))"

definition u8_set64 :: "Uint8ClampedArray \<Rightarrow> int \<Rightarrow> double \<Rightarrow> Uint8ClampedArray" where
  "u8_set64 a i x = (if 0 \<le> i \<and> i < int (length a) then a[nat i := ToUint8Clamp64 x] else a)"

text \<open>\<open>Math.round(255 - 255 * (d / this.radius + this.cutoff))\<close> with
  \<open>d = Math.sqrt(gridOuter[i]) - Math.sqrt(gridInner[i])\<close>\<close>

definition sdf_value64 :: "real \<Rightarrow> real \<Rightarrow> double \<Rightarrow> double \<Rightarrow> double" where
  "sdf_value64 radius cutoff outer inner =
     (let d = sub64 (Math_sqrt64 outer) (Math_sqrt64 inner)
      in Math_round64 (sub64 (Fin 255)
           (mul64 (Fin 255) (add64 (div64 d (Fin radius)) (Fin cutoff)))))"

text \<open>\<open>for (let i = 0; i < width * height; i++) { ...; data[i] = ...; }\<close>\<close>

function quantize64 :: "real \<Rightarrow> real \<Rightarrow> Float64Array64 \<Rightarrow> Float64Array64 \<Rightarrow> int \<Rightarrow> int
                        \<Rightarrow> Uint8ClampedArray \<Rightarrow> Uint8ClampedArray" where
  "quantize64 radius cutoff gridOuter gridInner n i data =
     (if i < n
      then quantize64 radius cutoff gridOuter gridInner n (i + 1)
             (u8_set64 data i (sdf_value64 radius cutoff (get64 gridOuter i) (get64 gridInner i)))
      else data)"
  by pat_completeness auto
termination
  by (relation "measure (\<lambda>(radius, cutoff, gridOuter, gridInner, n, i, data). nat (n - i))") auto

section \<open>The generator\<close>

text \<open>The fields of a \<open>TinySDF\<close> that \<open>draw\<close> uses; \<open>this.f\<close>, \<open>this.v\<close>, \<open>this.z\<close> and
  \<open>this.size\<close> carry the prefix.  The canvas context is outside the model.\<close>

record TinySDF =
  buffer :: int
  cutoff :: real
  radius :: real
  this_size :: int
  gridOuter :: Float64Array
  gridInner :: Float64Array
  this_f :: Float64Array
  this_z :: Float64Array
  this_v :: Uint16Array

record metrics =
  width :: int
  height :: int
  glyphWidth :: int
  glyphHeight :: int
  glyphTop :: int
  glyphLeft :: int
  glyphAdvance :: real

record glyph = metrics +
  data :: Uint8ClampedArray

text \<open>\<open>draw(char, metrics)\<close>.  The rasterizer is external: the bytes that
  \<open>ctx.getImageData(buffer, buffer, glyphWidth, glyphHeight)\<close> returns after \<open>clearRect\<close>
  and \<open>fillText\<close> are the argument \<open>imgData\<close>, which stands for \<open>char\<close>.  The result is
  the glyph and the generator with its grids and scratch buffers as the call leaves them.\<close>

definition draw :: "TinySDF \<Rightarrow> Uint8ClampedArray \<Rightarrow> metrics \<Rightarrow> error + (glyph \<times> TinySDF)" where
  "draw this imgData m =
     (if width m * height m < 0 then Inl RangeError
      else
        let g = metrics.extend m (glyph.fields (replicate (nat (width m * height m)) 0))
        in if glyphWidth m = 0 \<or> glyphHeight m = 0 then Inr (g, this)
           else
             (case seed imgData (width m) (height m) (glyphWidth m) (glyphHeight m)
                     (gridOuter this) (gridInner this) of
                (outer, inner) \<Rightarrow>
                  (case edt outer (width m) (height m) (this_f this) (this_v this) (this_z this) of
                     Inl e \<Rightarrow> Inl e
                   | Inr (outer, f, v, z) \<Rightarrow>
                       (case edt inner (width m) (height m) f v z of
                          Inl e \<Rightarrow> Inl e
                        | Inr (inner, f, v, z) \<Rightarrow>
                            (case quantize (radius this) (cutoff this) outer inner
                                    (width m * height m) 0 (data g) of
                               Inl e \<Rightarrow> Inl e
                             | Inr d \<Rightarrow>
                                 Inr (g\<lparr>data := d\<rparr>,
                                      this\<lparr>gridOuter := outer, gridInner := inner,
                                           this_f := f, this_v := v, this_z := z\<rparr>))))))"

text \<open>The generator and \<open>draw\<close> in floating point.  \<open>this.radius\<close> and \<open>this.cutoff\<close> are
  finite numbers.\<close>

record TinySDF64 =
  buffer64 :: int
  cutoff64 :: real
  radius64 :: real
  size64 :: int
  gridOuter64 :: Float64Array64
  gridInner64 :: Float64Array64
  f64 :: Float64Array64
  z64 :: Float64Array64
  v64 :: Uint16Array

definition draw64 :: "TinySDF64 \<Rightarrow> Uint8ClampedArray \<Rightarrow> metrics \<Rightarrow> error + (glyph \<times> TinySDF64)" where
  "draw64 this imgData m =
     (if width m * height m < 0 then Inl RangeError
      else
        let g = metrics.extend m (glyph.fields (replicate (nat (width m * height m)) 0))
        in if glyphWidth m = 0 \<or> glyphHeight m = 0 then Inr (g, this)
           else
             (case seed64 imgData (width m) (height m) (glyphWidth m) (glyphHeight m)
                     (gridOuter64 this) (gridInner64 this) of
                (outer, inner) \<Rightarrow>
                  (case edt64 outer (width m) (height m) (f64 this) (v64 this) (z64 this) of
                     (outer, f, v, z) \<Rightarrow>
                       (case edt64 inner (width m) (height m) f v z of
                          (inner, f, v, z) \<Rightarrow>
                            Inr (g\<lparr>data := quantize64 (radius64 this) (cutoff64 this) outer inner
                                              (width m * height m) 0 (data g)\<rparr>,
                                 this\<lparr>gridOuter64 := outer, gridInner64 := inner,
                                      f64 := f, v64 := v, z64 := z\<rparr>)))))"

section \<open>Invariants\<close>

text \<open>Every index on the stack \<open>v\<close>, up to position \<open>k\<close>, is below \<open>q\<close>.\<close>

definition below :: "Uint16Array \<Rightarrow> int \<Rightarrow> int \<Rightarrow> bool" where
  "below v k q \<longleftrightarrow> (\<forall>j r. 0 \<le> j \<and> j \<le> k \<and> u16_get v j = Inr (Some r) \<longrightarrow> r < q)"

text \<open>The cost of sample \<open>r\<close> plus the squared distance to it, and the abscissa from which
  the parabola of \<open>q\<close> lies below that of \<open>r < q\<close>.\<close>

definition par :: "(int \<Rightarrow> real) \<Rightarrow> int \<Rightarrow> real \<Rightarrow> real" where
  "par c r x = c r + (x - real_of_int r) * (x - real_of_int r)"

definition sep :: "(int \<Rightarrow> real) \<Rightarrow> int \<Rightarrow> int \<Rightarrow> real" where
  "sep c r q =
     (c q - c r + real_of_int q * real_of_int q - real_of_int r * real_of_int r)
       / (real_of_int q - real_of_int r) / 2"

text \<open>The entries of the stack, read as numbers.\<close>

definition vval :: "Uint16Array \<Rightarrow> int \<Rightarrow> int" where
  "vval v j = (case u16_get v j of Inr (Some r) \<Rightarrow> r | _ \<Rightarrow> 0)"

definition zval :: "Float64Array \<Rightarrow> int \<Rightarrow> real" where
  "zval z j = (case f64_get z j of Num t \<Rightarrow> t | NaN \<Rightarrow> 0)"

text \<open>The scratch line \<open>f\<close> holds the costs \<open>c 0, ..., c (len - 1)\<close>.\<close>

definition holds :: "Float64Array \<Rightarrow> int \<Rightarrow> (int \<Rightarrow> real) \<Rightarrow> bool" where
  "holds f len c \<longleftrightarrow> (\<forall>j. 0 \<le> j \<and> j < len \<longrightarrow> f64_get f j = Num (c j))"

text \<open>The stack \<open>v[0..k]\<close>, \<open>z[0..k]\<close> before sample \<open>q\<close> is looked at: its indices are
  samples before \<open>q\<close>, its boundaries are numbers, the lowest one is negative and the others
  ascend.\<close>

definition stack_ok :: "Uint16Array \<Rightarrow> Float64Array \<Rightarrow> int \<Rightarrow> int \<Rightarrow> bool" where
  "stack_ok v z q k \<longleftrightarrow>
     0 \<le> k \<and> k < q \<and>
     (\<forall>j. 0 \<le> j \<and> j \<le> k \<longrightarrow> (\<exists>r. u16_get v j = Inr (Some r) \<and> 0 \<le> r \<and> r < q)) \<and>
     (\<forall>j. 0 \<le> j \<and> j \<le> k \<longrightarrow> (\<exists>t. f64_get z j = Num t)) \<and>
     zval z 0 < 0 \<and>
     (\<forall>i j. 1 \<le> i \<and> i \<le> j \<and> j \<le> k \<longrightarrow> zval z i \<le> zval z j)"

text \<open>The abscissa \<open>x \<ge> 0\<close> lies in the stretch of stack entry \<open>j\<close>, where \<open>k\<close> is the top:
  entry 0 has no lower boundary and the top has no upper one.\<close>

definition seg :: "Float64Array \<Rightarrow> int \<Rightarrow> int \<Rightarrow> real \<Rightarrow> bool" where
  "seg z k j x \<longleftrightarrow>
     0 \<le> x \<and> 0 \<le> j \<and> j \<le> k \<and> (j = 0 \<or> zval z j \<le> x) \<and> (j = k \<or> x \<le> zval z (j + 1))"

text \<open>On its stretch, each stack entry is the lowest parabola among the samples before \<open>q\<close>;
  and, while the popping loop runs, it or the parabola of \<open>q\<close> is.\<close>

definition lowest :: "(int \<Rightarrow> real) \<Rightarrow> Uint16Array \<Rightarrow> Float64Array \<Rightarrow> int \<Rightarrow> int \<Rightarrow> bool" where
  "lowest c v z q k \<longleftrightarrow>
     (\<forall>x j r. seg z k j x \<and> 0 \<le> r \<and> r < q \<longrightarrow> par c (vval v j) x \<le> par c r x)"

definition lowest_with :: "(int \<Rightarrow> real) \<Rightarrow> Uint16Array \<Rightarrow> Float64Array \<Rightarrow> int \<Rightarrow> int \<Rightarrow> bool" where
  "lowest_with c v z q k \<longleftrightarrow>
     (\<forall>x j r. seg z k j x \<and> 0 \<le> r \<and> r \<le> q \<longrightarrow>
        min (par c (vval v j) x) (par c q x) \<le> par c r x)"

text \<open>The invariant of the loop that builds the envelope; \<open>z[k + 1]\<close> is the sentinel.\<close>

definition env_inv :: "(int \<Rightarrow> real) \<Rightarrow> Uint16Array \<Rightarrow> Float64Array \<Rightarrow> int \<Rightarrow> int \<Rightarrow> bool" where
  "env_inv c v z q k \<longleftrightarrow>
     stack_ok v z q k \<and> lowest c v z q k \<and> f64_get z (k + 1) = Num INF_val"

section \<open>What the transforms compute\<close>

text \<open>The contract of \<open>edt1d\<close>: the least of \<open>c r + (i - r)\<^sup>2\<close> over the samples \<open>r\<close> of the
  line.  And of \<open>edt\<close>: the least of \<open>c x' y' + (x - x')\<^sup>2 + (y - y')\<^sup>2\<close> over the cells of
  the grid.\<close>

definition dt1 :: "(int \<Rightarrow> real) \<Rightarrow> int \<Rightarrow> int \<Rightarrow> real" where
  "dt1 c n i = Min ((\<lambda>r. c r + (real_of_int i - real_of_int r) * (real_of_int i - real_of_int r)) ` {0..<n})"

definition dt2 :: "(int \<Rightarrow> int \<Rightarrow> real) \<Rightarrow> int \<Rightarrow> int \<Rightarrow> int \<Rightarrow> int \<Rightarrow> real" where
  "dt2 c w h x y =
     Min ((\<lambda>(x', y'). c x' y' + (real_of_int x - real_of_int x') * (real_of_int x - real_of_int x')
                              + (real_of_int y - real_of_int y') * (real_of_int y - real_of_int y'))
          ` ({0..<w} \<times> {0..<h}))"

text \<open>Cell \<open>(x, y)\<close> of a grid of width \<open>w\<close>, and scratch buffers that hold a line of a
  \<open>w\<close> by \<open>h\<close> grid: \<open>z\<close> has one cell more than the line, and an index fits in 16 bits.\<close>

definition cell :: "Float64Array \<Rightarrow> int \<Rightarrow> int \<Rightarrow> int \<Rightarrow> jsnum" where
  "cell grid w x y = f64_get grid (y * w + x)"

definition fits :: "int \<Rightarrow> int \<Rightarrow> Float64Array \<Rightarrow> Uint16Array \<Rightarrow> Float64Array \<Rightarrow> bool" where
  "fits w h f v z \<longleftrightarrow>
     max w h \<le> int (length f) \<and> max w h \<le> int (length v) \<and> max w h < int (length z) \<and>
     max w h \<le> 65536"

section \<open>Mirrored grids and sequences of passes\<close>



text \<open>A sequence of calls of \<open>edt1d\<close>, each given as offset, stride and length, on the same
  grid and scratch buffers.\<close>

fun passes :: "(int \<times> int \<times> int) list \<Rightarrow> Float64Array \<Rightarrow> Float64Array \<Rightarrow> Uint16Array
               \<Rightarrow> Float64Array
               \<Rightarrow> error + (Float64Array \<times> Float64Array \<times> Uint16Array \<times> Float64Array)" where
  "passes [] grid f v z = Inr (grid, f, v, z)"
| "passes ((offset, stride, len) # ps) grid f v z =
     (case edt1d grid offset stride len f v z of
        Inl e \<Rightarrow> Inl e
      | Inr (grid, f, v, z) \<Rightarrow> passes ps grid f v z)"

text \<open>One pass per column, stride \<open>w\<close> and length \<open>h\<close>; one pass per row, stride 1 and
  length \<open>w\<close>.\<close>

definition column_passes :: "int \<Rightarrow> int \<Rightarrow> (int \<times> int \<times> int) list" where
  "column_passes w h = map (\<lambda>x. (x, w, h)) [0..w - 1]"

definition row_passes :: "int \<Rightarrow> int \<Rightarrow> (int \<times> int \<times> int) list" where
  "row_passes w h = map (\<lambda>y. (y * w, 1, w)) [0..h - 1]"

text \<open>The order of the specification: the rows first, then the columns.\<close>

definition rows_then_columns ::
  "Float64Array \<Rightarrow> int \<Rightarrow> int \<Rightarrow> Float64Array \<Rightarrow> Uint16Array \<Rightarrow> Float64Array
   \<Rightarrow> error + (Float64Array \<times> Float64Array \<times> Uint16Array \<times> Float64Array)" where
  "rows_then_columns grid w h f v z = passes (row_passes w h @ column_passes w h) grid f v z"


section \<open>Scratch buffers that agree\<close>

text \<open>Two typed arrays of one length that read the same at the indices up to \<open>n\<close>.\<close>

definition same_f64 :: "Float64Array \<Rightarrow> Float64Array \<Rightarrow> int \<Rightarrow> bool" where
  "same_f64 a b n \<longleftrightarrow> length a = length b \<and> (\<forall>j. 0 \<le> j \<and> j \<le> n \<longrightarrow> f64_get a j = f64_get b j)"

definition same_u16 :: "Uint16Array \<Rightarrow> Uint16Array \<Rightarrow> int \<Rightarrow> bool" where
  "same_u16 a b n \<longleftrightarrow> length a = length b \<and> (\<forall>j. 0 \<le> j \<and> j \<le> n \<longrightarrow> u16_get a j = u16_get b j)"

text \<open>The cell above the stack holds the sentinel, or lies beyond the array.\<close>

definition sentinel :: "Float64Array \<Rightarrow> int \<Rightarrow> bool" where
  "sentinel z j \<longleftrightarrow> f64_get z j = Num INF_val \<or> f64_get z j = NaN"

section \<open>Proofs\<close>

declare pop64.simps [simp del] sample64.simps [simp del] envelope64.simps [simp del]
  cursor64.simps [simp del] scan64.simps [simp del] edt_columns64.simps [simp del]
  edt_rows64.simps [simp del] seed_row64.simps [simp del] seed_rows64.simps [simp del]
  quantize64.simps [simp del]

declare pop.simps [simp del] sample.simps [simp del] envelope.simps [simp del]
  cursor.simps [simp del] scan.simps [simp del] edt_columns.simps [simp del]
  edt_rows.simps [simp del] seed_row.simps [simp del] seed_rows.simps [simp del]
  quantize.simps [simp del]

section \<open>Floating point\<close>

text \<open>Powers of two by squaring, for evaluation.\<close>

lemma pow2_double: "pow2 (2 * k) = (pow2 k)\<^sup>2"
proof -
  have "nat (2 * k) = nat k + nat k" "nat (- (2 * k)) = nat (- k) + nat (- k)"
    by simp_all
  then show ?thesis
    by (simp only: pow2_def power_add power2_eq_square) simp
qed

lemma pow2_Suc: "0 \<le> k \<Longrightarrow> pow2 (k + 1) = 2 * pow2 k"
  by (simp add: pow2_def nat_add_distrib)

lemma pow2_code [code]:
  "pow2 e =
     (if e = 0 then 1
      else if 0 < e then (if even e then 1 else 2) * (pow2 (e div 2))\<^sup>2
      else 1 / pow2 (- e))"
proof -
  have pos: "pow2 e = (if even e then 1 else 2) * (pow2 (e div 2))\<^sup>2"
    if "0 < e"
  proof (cases "even e")
    case True
    then obtain k where k: "e = 2 * k" by (auto elim: evenE)
    show ?thesis
      unfolding k using pow2_double [of k] by simp
  next
    case False
    then obtain k where k: "e = 2 * k + 1" by (auto elim: oddE)
    with that have "0 \<le> 2 * k" by simp
    then show ?thesis
      unfolding k using pow2_double [of k] pow2_Suc [of "2 * k"] by simp
  qed
  show ?thesis
    using pos by (simp add: pow2_def)
qed

text \<open>\<open>ilog2\<close> is the binary exponent.\<close>

lemma ilog2_floor_log:
  assumes "0 < x"
  shows "ilog2 x = \<lfloor>log 2 x\<rfloor>"
proof (cases "1 \<le> x")
  case True
  define n where "n = \<lfloor>x\<rfloor>"
  have n: "1 \<le> n" "of_int n \<le> x" "x < of_int n + 1"
    using True by (simp_all add: n_def le_floor_iff)
  define b where "b = bitlen n"
  have b: "2 ^ nat (b - 1) \<le> n" "n < 2 ^ nat b"
    using bitlen_bounds [of n] n(1) by (simp_all add: b_def)
  have b1: "1 \<le> b"
    using n(1) bitlen_nonneg [of n] b(2) by (cases "b = 0") (auto simp: b_def)
  have "n + 1 \<le> 2 ^ nat b"
    using b(2) by simp
  then have "of_int (n + 1) \<le> (2::real) ^ nat b"
    by (metis of_int_le_iff of_int_numeral of_int_power)
  moreover have "x < of_int (n + 1)"
    using n(3) by simp
  ultimately have up: "x < 2 ^ nat b"
    by (rule less_le_trans [rotated])
  have "(2::real) ^ nat (b - 1) \<le> of_int n"
    using b(1) by (metis of_int_le_iff of_int_numeral of_int_power)
  then have lo: "2 ^ nat (b - 1) \<le> x"
    using n(2) by (rule order_trans)
  have "2 powr real_of_int (b - 1) \<le> x" "x < 2 powr real_of_int (b - 1 + 1)"
    using lo up b1 by (simp_all add: powr_realpow [symmetric] nat_diff_distrib)
  then have "\<lfloor>log 2 x\<rfloor> = b - 1"
    using assms by (simp add: floor_log_eq_powr_iff)
  then show ?thesis
    using True by (simp add: ilog2_def n_def b_def)
next
  case False
  define y where "y = 1 / x"
  have y: "1 < y"
    using False assms by (simp add: y_def)
  define m where "m = \<lceil>y\<rceil>"
  have m: "2 \<le> m" "y \<le> of_int m" "of_int m - 1 < y"
    using y by (simp_all add: m_def le_ceiling_iff) linarith+
  define b where "b = bitlen (m - 1)"
  have b: "2 ^ nat (b - 1) \<le> m - 1" "m - 1 < 2 ^ nat b"
    using bitlen_bounds [of "m - 1"] m(1) by (simp_all add: b_def)
  have b1: "1 \<le> b"
    using m(1) bitlen_nonneg [of "m - 1"] b(2) by (cases "b = 0") (auto simp: b_def)
  have "m \<le> 2 ^ nat b"
    using b(2) by simp
  then have "of_int m \<le> (2::real) ^ nat b"
    by (metis of_int_le_iff of_int_numeral of_int_power)
  then have up: "y \<le> 2 ^ nat b"
    using m(2) by (rule order_trans [rotated])
  have "(2::real) ^ nat (b - 1) \<le> of_int (m - 1)"
    using b(1) by (metis of_int_le_iff of_int_numeral of_int_power)
  moreover have "of_int (m - 1) < y"
    using m(3) by simp
  ultimately have lo: "2 ^ nat (b - 1) < y"
    by (rule le_less_trans)
  have x: "x = 1 / y"
    using assms by (simp add: y_def)
  have "1 / 2 ^ nat b \<le> x"
    unfolding x using up y by (simp add: frac_le)
  then have lo': "2 powr real_of_int (- b) \<le> x"
    using b1 by (simp add: powr_minus powr_realpow [symmetric] inverse_eq_divide)
  have "x < 1 / 2 ^ nat (b - 1)"
    unfolding x using lo y by (simp add: frac_less2)
  then have up': "x < 2 powr real_of_int (- b + 1)"
  proof -
    have "real_of_int (- b + 1) = - real (nat (b - 1))"
      using b1 by simp
    then have "2 powr real_of_int (- b + 1) = 1 / 2 ^ nat (b - 1)"
      by (simp only: powr_minus powr_realpow) (simp add: inverse_eq_divide)
    with \<open>x < 1 / 2 ^ nat (b - 1)\<close> show ?thesis by simp
  qed
  have "\<lfloor>log 2 x\<rfloor> = - b"
    using assms lo' up' by (simp add: floor_log_eq_powr_iff)
  then show ?thesis
    using False by (simp add: ilog2_def y_def m_def b_def)
qed

section \<open>Typed-array laws\<close>

lemma length_f64_set [simp]: "length (f64_set a i x) = length a"
  by (simp add: f64_set_def)

lemma length_u16_set [simp]: "length (u16_set a k x) = length a"
  by (simp add: u16_set_def)

lemma f64_get_set:
  "f64_get (f64_set a i x) j =
     (if j = i \<and> 0 \<le> i \<and> i < int (length a) then x else f64_get a j)"
  by (auto simp: f64_get_def f64_set_def nth_list_update)

lemma f64_get_set_other [simp]: "j \<noteq> i \<Longrightarrow> f64_get (f64_set a i x) j = f64_get a j"
  by (simp add: f64_get_set)

lemma f64_get_set_same [simp]:
  "0 \<le> i \<Longrightarrow> i < int (length a) \<Longrightarrow> f64_get (f64_set a i x) i = x"
  by (simp add: f64_get_set)

lemma f64_get_Num_range: "f64_get a i = Num c \<Longrightarrow> 0 \<le> i \<and> i < int (length a)"
  by (auto simp: f64_get_def split: if_splits)

lemma u16_get_set:
  "u16_get (u16_set a k x) j =
     (if j = k \<and> 0 \<le> k \<and> k < int (length a)
      then Inr (Some (uint (word_of_int x :: 16 word)))
      else u16_get a j)"
  by (auto simp: u16_get_def u16_set_def nth_list_update)

lemma u16_get_nonneg: "0 \<le> k \<Longrightarrow> \<exists>r. u16_get a k = Inr r"
  by (simp add: u16_get_def)

lemma u16_get_Some_nonneg: "u16_get a k = Inr (Some r) \<Longrightarrow> 0 \<le> r"
  by (auto simp: u16_get_def split: if_splits)

lemma uint16_of_int_le: "0 \<le> x \<Longrightarrow> uint (word_of_int x :: 16 word) \<le> x"
  by (simp add: uint_word_of_int zmod_le_nonneg_dividend)

lemma uint16_of_int_id: "0 \<le> x \<Longrightarrow> x < 65536 \<Longrightarrow> uint (word_of_int x :: 16 word) = x"
  by (simp add: uint_word_of_int)

section \<open>No division by zero, no stack underflow\<close>

lemma js_div_Inr: "b \<noteq> Num 0 \<Longrightarrow> \<exists>t. js_div a b = Inr t"
  by (cases b) auto

lemma js_sub_idx_nonzero: "r \<noteq> Some q \<Longrightarrow> js_sub (js_int q) (js_idx r) \<noteq> Num 0"
  by (cases r) (auto simp: js_idx_def js_int_def)

lemma intersect_Inr: "r \<noteq> Some q \<Longrightarrow> \<exists>s. intersect f q r = Inr s"
proof -
  assume "r \<noteq> Some q"
  then obtain t where
    "js_div (js_sub (js_add (js_sub (f64_get f q) (f64_at f r)) (js_mul (js_int q) (js_int q)))
                    (js_mul (js_idx r) (js_idx r)))
            (js_sub (js_int q) (js_idx r)) = Inr t"
    using js_div_Inr [OF js_sub_idx_nonzero] by blast
  moreover obtain s where "js_div t (Num 2) = Inr s"
    using js_div_Inr [of "Num 2" t] by auto
  ultimately show ?thesis
    by (simp add: intersect_def)
qed

lemma below_mono: "below v k q \<Longrightarrow> k' \<le> k \<Longrightarrow> q \<le> q' \<Longrightarrow> below v k' q'"
  unfolding below_def by (meson order_trans less_le_trans)

lemma pop_Inr:
  "0 \<le> k \<Longrightarrow> below v k q \<Longrightarrow> \<exists>k' s. pop f v z q k = Inr (k', s) \<and> - 1 \<le> k' \<and> k' \<le> k"
proof (induction f v z q k rule: pop.induct)
  case (1 f v z q k)
  from \<open>0 \<le> k\<close> obtain r where r: "u16_get v k = Inr r"
    using u16_get_nonneg by blast
  have "r \<noteq> Some q"
    using r "1.prems" by (auto simp: below_def)
  then obtain s where s: "intersect f q r = Inr s"
    using intersect_Inr by blast
  show ?case
  proof (cases "js_le s (f64_get z k) \<and> k - 1 > - 1")
    case True
    have "below v (k - 1) q"
      using "1.prems"(2) below_mono [of v k q "k - 1" q] by simp
    with "1.IH" [OF r s] True
    obtain k' s' where "pop f v z q (k - 1) = Inr (k', s')" "- 1 \<le> k'" "k' \<le> k - 1"
      by auto
    with True r s show ?thesis
      by (subst pop.simps) auto
  next
    case False
    with r s \<open>0 \<le> k\<close> show ?thesis
      by (subst pop.simps) auto
  qed
qed

lemma below_push:
  assumes "below v k q" "k' \<le> k" "0 \<le> q"
  shows "below (u16_set v (k' + 1) q) (k' + 1) (q + 1)"
  unfolding below_def
proof (intro allI impI, elim conjE)
  fix j r
  assume j: "0 \<le> j" "j \<le> k' + 1" and g: "u16_get (u16_set v (k' + 1) q) j = Inr (Some r)"
  show "r < q + 1"
  proof (cases "j = k' + 1")
    case True
    show ?thesis
    proof (cases "k' + 1 < int (length v)")
      case True
      with g \<open>j = k' + 1\<close> j have "r = uint (word_of_int q :: 16 word)"
        by (simp add: u16_get_set)
      then show ?thesis using uint16_of_int_le [OF \<open>0 \<le> q\<close>] by simp
    next
      case False
      with g \<open>j = k' + 1\<close> have "u16_get v j = Inr (Some r)"
        by (simp add: u16_get_set)
      with False \<open>j = k' + 1\<close> show ?thesis
        by (simp add: u16_get_def split: if_splits)
    qed
  next
    case False
    with g have "u16_get v j = Inr (Some r)"
      by (simp add: u16_get_set)
    moreover have "j \<le> k"
      using assms(2) j False by simp
    ultimately have "r < q"
      using assms(1) j(1) unfolding below_def by blast
    then show ?thesis by simp
  qed
qed

lemma envelope_Inr:
  "0 \<le> k \<Longrightarrow> 0 \<le> q \<Longrightarrow> below v k q \<Longrightarrow> \<exists>v' z'. envelope len f v z q k = Inr (v', z')"
proof (induction len f v z q k rule: envelope.induct)
  case (1 len f v z q k)
  show ?case
  proof (cases "q < len")
    case False
    then show ?thesis by (subst envelope.simps) simp
  next
    case True
    from pop_Inr [OF "1.prems"(1) "1.prems"(3)]
    obtain k' s where p: "pop f v z q k = Inr (k', s)" "- 1 \<le> k'" "k' \<le> k"
      by blast
    have "\<exists>v' z'. envelope len f (u16_set v (k' + 1) q)
             (f64_set (f64_set z (k' + 1) s) (k' + 1 + 1) (Num INF_val)) (q + 1) (k' + 1) = Inr (v', z')"
      using "1.IH" [OF True p(1) refl refl refl refl refl] p(2) "1.prems"(2)
        below_push [OF "1.prems"(3) p(3) "1.prems"(2)]
      by simp
    with True p(1) show ?thesis
      by (subst envelope.simps) (simp add: Let_def)
  qed
qed

lemma cursor_ge: "k \<le> cursor z q k"
proof (induction z q k rule: cursor.induct)
  case (1 z q k)
  then show ?case
    by (subst cursor.simps) auto
qed

lemma scan_Inr: "0 \<le> k \<Longrightarrow> \<exists>g. scan offset stride len f v z grid q k = Inr g"
proof (induction offset stride len f v z grid q k rule: scan.induct)
  case (1 offset stride len f v z grid q k)
  show ?case
  proof (cases "q < len")
    case False
    then show ?thesis by (subst scan.simps) simp
  next
    case True
    have c: "0 \<le> cursor z q k"
      using cursor_ge [of k z q] "1.prems" by simp
    then obtain r where r: "u16_get v (cursor z q k) = Inr r"
      using u16_get_nonneg by blast
    from "1.IH" [OF True refl r c] True r show ?thesis
      by (subst scan.simps) (simp add: Let_def)
  qed
qed

lemma below_init: "below (u16_set v 0 0) 0 1"
proof -
  have "r < 1" if "u16_get (u16_set v 0 0) 0 = Inr (Some r)" for r
  proof (cases "0 < int (length v)")
    case True
    with that show ?thesis by (simp add: u16_get_set)
  next
    case False
    with that show ?thesis by (simp add: u16_get_set u16_get_def)
  qed
  then show ?thesis
    by (auto simp: below_def)
qed

lemma edt1d_Inr:
  "\<exists>grid' f' v' z'. edt1d grid offset stride len f v z = Inr (grid', f', v', z')"
proof -
  obtain v' z' where e: "envelope len (sample grid offset stride len f 0) (u16_set v 0 0)
       (f64_set (f64_set z 0 (Num (- INF_val))) 1 (Num INF_val)) 1 0 = Inr (v', z')"
    using envelope_Inr [OF _ _ below_init] by (metis zero_le_one order_refl)
  obtain g where "scan offset stride len (sample grid offset stride len f 0) v' z' grid 0 0 = Inr g"
    using scan_Inr [of 0] by blast
  with e show ?thesis
    by (simp add: edt1d_def Let_def)
qed

section \<open>What a pass writes\<close>

lemma sample_length [simp]: "length (sample grid offset stride len f q) = length f"
proof (induction grid offset stride len f q rule: sample.induct)
  case (1 grid offset stride len f q)
  then show ?case
    by (subst sample.simps) simp
qed

lemma sample_get:
  "f64_get (sample grid offset stride len f q) j =
     (if q \<le> j \<and> j < len \<and> 0 \<le> j \<and> j < int (length f)
      then f64_get grid (offset + j * stride) else f64_get f j)"
proof (induction grid offset stride len f q rule: sample.induct)
  case (1 grid offset stride len f q)
  show ?case
  proof (cases "q < len")
    case True
    then show ?thesis
      using "1.IH" [OF True] by (subst sample.simps) (auto simp: f64_get_set)
  next
    case False
    then show ?thesis
      by (subst sample.simps) auto
  qed
qed

lemma scan_frame:
  "scan offset stride len f v z grid q k = Inr g \<Longrightarrow>
     length g = length grid \<and>
     (\<forall>j. (\<forall>i. q \<le> i \<and> i < len \<longrightarrow> j \<noteq> offset + i * stride) \<longrightarrow> f64_get g j = f64_get grid j)"
proof (induction offset stride len f v z grid q k rule: scan.induct)
  case (1 offset stride len f v z grid q k)
  show ?case
  proof (cases "q < len")
    case False
    with "1.prems" show ?thesis
      by (subst (asm) scan.simps) simp
  next
    case True
    from "1.prems" True obtain r where r: "u16_get v (cursor z q k) = Inr r"
      and s: "scan offset stride len f v z
                (f64_set grid (offset + q * stride) (parabola f q r)) (q + 1) (cursor z q k) = Inr g"
      by (subst (asm) scan.simps) (auto simp: Let_def split: sum.splits)
    from "1.IH" [OF True refl r s]
    have len: "length g = length grid"
      and fr: "\<And>j. (\<forall>i. q + 1 \<le> i \<and> i < len \<longrightarrow> j \<noteq> offset + i * stride) \<Longrightarrow>
                 f64_get g j = f64_get (f64_set grid (offset + q * stride) (parabola f q r)) j"
      by simp_all
    have "f64_get g j = f64_get grid j"
      if j: "\<forall>i. q \<le> i \<and> i < len \<longrightarrow> j \<noteq> offset + i * stride" for j
    proof -
      have "j \<noteq> offset + q * stride"
        using j True by simp
      moreover have "\<forall>i. q + 1 \<le> i \<and> i < len \<longrightarrow> j \<noteq> offset + i * stride"
        using j by simp
      ultimately show ?thesis
        using fr [of j] by simp
    qed
    with len show ?thesis by simp
  qed
qed

lemma envelope_length:
  "envelope len f v z q k = Inr (v', z') \<Longrightarrow> length v' = length v \<and> length z' = length z"
proof (induction len f v z q k rule: envelope.induct)
  case (1 len f v z q k)
  show ?case
  proof (cases "q < len")
    case False
    with "1.prems" show ?thesis
      by (subst (asm) envelope.simps) simp
  next
    case True
    from "1.prems" True obtain k' s where p: "pop f v z q k = Inr (k', s)"
      and e: "envelope len f (u16_set v (k' + 1) q)
                (f64_set (f64_set z (k' + 1) s) (k' + 1 + 1) (Num INF_val)) (q + 1) (k' + 1) = Inr (v', z')"
      by (subst (asm) envelope.simps) (auto simp: Let_def split: sum.splits)
    from "1.IH" [OF True p refl refl refl refl refl e] show ?thesis
      by simp
  qed
qed

lemma edt1d_cases:
  assumes "edt1d grid offset stride len f v z = Inr (g, f', v', z')"
  shows "f' = sample grid offset stride len f 0"
    and "envelope len f' (u16_set v 0 0)
           (f64_set (f64_set z 0 (Num (- INF_val))) 1 (Num INF_val)) 1 0 = Inr (v', z')"
    and "scan offset stride len f' v' z' grid 0 0 = Inr g"
  using assms by (auto simp: edt1d_def Let_def split: sum.splits)

lemma edt1d_frame:
  assumes "edt1d grid offset stride len f v z = Inr (g, f', v', z')"
  shows "length g = length grid" and "length f' = length f"
    and "length v' = length v" and "length z' = length z"
    and "(\<forall>i. 0 \<le> i \<and> i < len \<longrightarrow> j \<noteq> offset + i * stride) \<Longrightarrow> f64_get g j = f64_get grid j"
proof -
  note c = edt1d_cases [OF assms]
  show "length g = length grid"
    using scan_frame [OF c(3)] by simp
  show "length f' = length f"
    using c(1) by simp
  show "length v' = length v" "length z' = length z"
    using envelope_length [OF c(2)] by simp_all
  show "f64_get g j = f64_get grid j" if "\<forall>i. 0 \<le> i \<and> i < len \<longrightarrow> j \<noteq> offset + i * stride"
    using scan_frame [OF c(3)] that by simp
qed

lemma row_other:
  fixes w :: int
  assumes "0 \<le> x'" "x' < w" "y' \<noteq> y" "0 \<le> i" "i < w"
  shows "y' * w + x' \<noteq> y * w + i * 1"
proof
  assume "y' * w + x' = y * w + i * 1"
  then have "(y' * w + x') div w = (y * w + i) div w"
    by simp
  with assms show False
    by simp
qed

lemma column_other:
  fixes w :: int
  assumes "0 \<le> x'" "x' < w" "0 \<le> x" "x < w" "x' \<noteq> x"
  shows "y' * w + x' \<noteq> x + i * w"
proof
  assume "y' * w + x' = x + i * w"
  then have "(y' * w + x') mod w = (x + i * w) mod w"
    by simp
  with assms show False
    by simp
qed

section \<open>The lower envelope\<close>

lemma par_cross:
  assumes "r < q"
  shows "par c q x \<le> par c r x \<longleftrightarrow> sep c r q \<le> x"
proof -
  define d where "d = real_of_int q - real_of_int r"
  have d: "0 < d"
    using assms by (simp add: d_def)
  have "sep c r q \<le> x \<longleftrightarrow>
        c q - c r + real_of_int q * real_of_int q - real_of_int r * real_of_int r \<le> x * (d * 2)"
    using d by (simp add: sep_def d_def [symmetric] pos_divide_le_eq)
  also have "\<dots> \<longleftrightarrow> par c q x \<le> par c r x"
    by (simp add: par_def d_def algebra_simps)
  finally show ?thesis by simp
qed

lemma intersect_Num:
  assumes "f64_get f q = Num a" "f64_get f r = Num b" "r \<noteq> q"
  shows "intersect f q (Some r) =
         Inr (Num ((a - b + real_of_int q * real_of_int q - real_of_int r * real_of_int r)
                     / (real_of_int q - real_of_int r) / 2))"
  using assms by (simp add: intersect_def f64_at_def js_idx_def js_int_def)

lemma intersect_sep:
  assumes "holds f len c" "0 \<le> r" "r < q" "q < len"
  shows "intersect f q (Some r) = Inr (Num (sep c r q))"
proof -
  have "f64_get f q = Num (c q)" "f64_get f r = Num (c r)"
    using assms by (auto simp: holds_def)
  then show ?thesis
    using assms(3) by (simp add: intersect_Num sep_def)
qed

lemma stack_ok_v:
  assumes "stack_ok v z q k" "0 \<le> j" "j \<le> k"
  shows "u16_get v j = Inr (Some (vval v j))" "0 \<le> vval v j" "vval v j < q"
proof -
  from assms obtain r where "u16_get v j = Inr (Some r)" "0 \<le> r" "r < q"
    unfolding stack_ok_def by blast
  then show "u16_get v j = Inr (Some (vval v j))" "0 \<le> vval v j" "vval v j < q"
    by (simp_all add: vval_def)
qed

lemma stack_ok_z:
  assumes "stack_ok v z q k" "0 \<le> j" "j \<le> k"
  shows "f64_get z j = Num (zval z j)"
proof -
  from assms obtain t where "f64_get z j = Num t"
    unfolding stack_ok_def by blast
  then show ?thesis
    by (simp add: zval_def)
qed

lemma stack_ok_mono:
  "stack_ok v z q k \<Longrightarrow> 1 \<le> i \<Longrightarrow> i \<le> j \<Longrightarrow> j \<le> k \<Longrightarrow> zval z i \<le> zval z j"
  unfolding stack_ok_def by blast

lemma stack_ok_pop: "stack_ok v z q k \<Longrightarrow> 1 \<le> k \<Longrightarrow> stack_ok v z q (k - 1)"
  unfolding stack_ok_def by (simp; blast)

lemma lowest_with_start:
  assumes "lowest c v z q k"
  shows "lowest_with c v z q k"
  unfolding lowest_with_def
proof (intro allI impI, elim conjE)
  fix x j r
  assume s: "seg z k j x" and r: "0 \<le> r" "r \<le> q"
  show "min (par c (vval v j) x) (par c q x) \<le> par c r x"
  proof (cases "r = q")
    case True
    then show ?thesis by simp
  next
    case False
    with r have "r < q" by simp
    with assms s r(1) have "par c (vval v j) x \<le> par c r x"
      unfolding lowest_def by blast
    then show ?thesis by simp
  qed
qed

text \<open>One more parabola is popped: the one of \<open>q\<close> is below it on all of its stretch.\<close>

lemma lowest_with_pop:
  assumes ok: "stack_ok v z q k" and k: "1 \<le> k"
    and lw: "lowest_with c v z q k"
    and t: "sep c (vval v k) q \<le> zval z k"
  shows "lowest_with c v z q (k - 1)"
  unfolding lowest_with_def
proof (intro allI impI, elim conjE)
  fix x j r
  assume s: "seg z (k - 1) j x" and r: "0 \<le> r" "r \<le> q"
  show "min (par c (vval v j) x) (par c q x) \<le> par c r x"
  proof (cases "j = k - 1 \<and> zval z k < x")
    case False
    then have "seg z k j x"
      using s by (auto simp: seg_def)
    with lw r show ?thesis
      unfolding lowest_with_def by blast
  next
    case True
    then have "seg z k k x"
      using s k by (auto simp: seg_def)
    with lw r have m: "min (par c (vval v k) x) (par c q x) \<le> par c r x"
      unfolding lowest_with_def by blast
    have "vval v k < q"
      using stack_ok_v [OF ok, of k] k by simp
    moreover have "sep c (vval v k) q \<le> x"
      using t True by simp
    ultimately have "par c q x \<le> par c (vval v k) x"
      by (simp add: par_cross)
    with m have "par c q x \<le> par c r x"
      by simp
    then show ?thesis
      by simp
  qed
qed

lemma vval_set:
  "vval (u16_set v i q) j =
     (if j = i \<and> 0 \<le> i \<and> i < int (length v) then uint (word_of_int q :: 16 word) else vval v j)"
  by (simp add: vval_def u16_get_set)

lemma zval_set:
  "zval (f64_set z i (Num t)) j = (if j = i \<and> 0 \<le> i \<and> i < int (length z) then t else zval z j)"
  by (simp add: zval_def f64_get_set)

text \<open>The parabola of \<open>q\<close> is pushed on top of entry \<open>k\<close>, from \<open>t\<close> on.\<close>

lemma push_on:
  assumes ok: "stack_ok v z q k" and lw: "lowest_with c v z q k"
    and t: "t = sep c (vval v k) q" "zval z k < t"
    and sz: "k + 1 < int (length v)" "k + 2 < int (length z)" "q < 65536"
  shows "env_inv c (u16_set v (k + 1) q)
           (f64_set (f64_set z (k + 1) (Num t)) (k + 1 + 1) (Num INF_val)) (q + 1) (k + 1)"
proof -
  define v' where "v' = u16_set v (k + 1) q"
  define z' where "z' = f64_set (f64_set z (k + 1) (Num t)) (k + 1 + 1) (Num INF_val)"
  have k: "0 \<le> k" "k < q"
    using ok by (simp_all add: stack_ok_def)
  have vtop: "u16_get v' (k + 1) = Inr (Some q)" "vval v' (k + 1) = q"
    using k sz by (simp_all add: v'_def u16_get_set vval_set uint16_of_int_id)
  have vold: "u16_get v' j = u16_get v j" "vval v' j = vval v j" if "j \<le> k" for j
    using that by (simp_all add: v'_def u16_get_set vval_set)
  have ztop: "f64_get z' (k + 1) = Num t" "zval z' (k + 1) = t"
    using k sz by (simp_all add: z'_def f64_get_set zval_set)
  have zold: "f64_get z' j = f64_get z j" "zval z' j = zval z j" if "j \<le> k" for j
    using that by (simp_all add: z'_def f64_get_set zval_set)
  have zinf: "f64_get z' (k + 1 + 1) = Num INF_val"
    using k sz by (simp add: z'_def)
  have ok': "stack_ok v' z' (q + 1) (k + 1)"
    unfolding stack_ok_def
  proof (intro conjI allI impI)
    show "0 \<le> k + 1" "k + 1 < q + 1"
      using k by simp_all
    show "\<exists>r. u16_get v' j = Inr (Some r) \<and> 0 \<le> r \<and> r < q + 1" if "0 \<le> j \<and> j \<le> k + 1" for j
    proof (cases "j = k + 1")
      case True
      with vtop k show ?thesis by simp
    next
      case False
      with that have j: "0 \<le> j" "j \<le> k" by simp_all
      show ?thesis
        using stack_ok_v [OF ok j] vold(1) [OF j(2)] by auto
    qed
    show "\<exists>t. f64_get z' j = Num t" if "0 \<le> j \<and> j \<le> k + 1" for j
    proof (cases "j = k + 1")
      case True
      with ztop show ?thesis by simp
    next
      case False
      with that have j: "0 \<le> j" "j \<le> k" by simp_all
      show ?thesis
        using stack_ok_z [OF ok j] zold(1) [OF j(2)] by simp
    qed
    show "zval z' 0 < 0"
      using ok k zold(2) [of 0] by (simp add: stack_ok_def)
    show "zval z' i \<le> zval z' j" if "1 \<le> i \<and> i \<le> j \<and> j \<le> k + 1" for i j
    proof (cases "j = k + 1")
      case False
      with that show ?thesis
        using stack_ok_mono [OF ok, of i j] zold(2) [of i] zold(2) [of j] by simp
    next
      case True
      show ?thesis
      proof (cases "i = k + 1")
        case True
        with \<open>j = k + 1\<close> show ?thesis by simp
      next
        case False
        with that True have "zval z i \<le> zval z k"
          using stack_ok_mono [OF ok, of i k] by simp
        with t(2) True False that show ?thesis
          using zold(2) [of i] ztop(2) by simp
      qed
    qed
  qed
  have top: "vval v k < q"
    using stack_ok_v [OF ok, of k] k by simp
  have low: "lowest c v' z' (q + 1) (k + 1)"
    unfolding lowest_def
  proof (intro allI impI, elim conjE)
    fix x j r
    assume s: "seg z' (k + 1) j x" and r: "0 \<le> r" "r < q + 1"
    from r have r': "0 \<le> r \<and> r \<le> q" by simp
    have x: "0 \<le> x" and j: "0 \<le> j" "j \<le> k + 1"
      using s by (simp_all add: seg_def)
    consider "j = k + 1" | "j = k" | "j < k"
      using j by linarith
    then show "par c (vval v' j) x \<le> par c r x"
    proof cases
      case 1
      with s k have tx: "t \<le> x"
        using ztop(2) by (auto simp: seg_def)
      with t(2) x k have "seg z k k x"
        by (auto simp: seg_def)
      with lw r' have "min (par c (vval v k) x) (par c q x) \<le> par c r x"
        unfolding lowest_with_def by blast
      moreover have "par c q x \<le> par c (vval v k) x"
        using tx t(1) top by (simp add: par_cross)
      ultimately show ?thesis
        using 1 vtop(2) by simp
    next
      case 2
      with s k have xt: "x \<le> t" and lo: "k = 0 \<or> zval z k \<le> x"
        using ztop(2) zold(2) [of k] by (auto simp: seg_def)
      from lo x k have "seg z k k x"
        by (auto simp: seg_def)
      with lw r' have m: "min (par c (vval v k) x) (par c q x) \<le> par c r x"
        unfolding lowest_with_def by blast
      have "par c (vval v k) x \<le> par c q x"
      proof (cases "x = t")
        case True
        have "par c q x = par c (vval v k) x"
        proof -
          have "par c q x - par c (vval v k) x =
                (c q - c (vval v k) + real_of_int q * real_of_int q
                   - real_of_int (vval v k) * real_of_int (vval v k))
                - 2 * x * (real_of_int q - real_of_int (vval v k))"
            by (simp add: par_def algebra_simps)
          also have "\<dots> = 0"
            using True t(1) top by (simp add: sep_def field_simps)
          finally show ?thesis by simp
        qed
        then show ?thesis by simp
      next
        case False
        with xt have "\<not> t \<le> x" by simp
        then have "\<not> par c q x \<le> par c (vval v k) x"
          using t(1) top by (simp add: par_cross)
        then show ?thesis by simp
      qed
      with m show ?thesis
        using 2 vold(2) [of k] by simp
    next
      case 3
      with s j have sj: "seg z k j x"
        using zold(2) [of j] zold(2) [of "j + 1"] by (auto simp: seg_def)
      with 3 have "x \<le> zval z (j + 1)"
        by (auto simp: seg_def)
      also have "zval z (j + 1) \<le> zval z k"
        using stack_ok_mono [OF ok, of "j + 1" k] j 3 by simp
      finally have "\<not> t \<le> x"
        using t(2) by simp
      then have lt: "\<not> par c q x \<le> par c (vval v k) x"
        using t(1) top by (simp add: par_cross)
      have "min (par c (vval v j) x) (par c q x) \<le> par c (vval v k) x"
        using lw sj stack_ok_v(2,3) [OF ok, of k] k unfolding lowest_with_def
        by (metis less_imp_le order_refl)
      with lt have "par c (vval v j) x \<le> par c q x"
        by (simp add: min_le_iff_disj)
      moreover have "min (par c (vval v j) x) (par c q x) \<le> par c r x"
        using lw sj r' unfolding lowest_with_def by blast
      ultimately show ?thesis
        using 3 vold(2) [of j] by simp
    qed
  qed
  show ?thesis
    using ok' low zinf by (simp add: env_inv_def v'_def z'_def)
qed

lemma INF_val_pos: "0 < INF_val"
  by (simp add: INF_val_def)

text \<open>The parabola of \<open>q\<close> takes the place of the last entry of the stack.\<close>

lemma push_bottom:
  assumes ok: "stack_ok v z q 0" and lw: "lowest_with c v z q 0"
    and t: "t = sep c (vval v 0) q" "t \<le> zval z 0"
    and sz: "0 < int (length v)" "1 < int (length z)" "q < 65536"
  shows "env_inv c (u16_set v 0 q) (f64_set (f64_set z 0 (Num t)) 1 (Num INF_val)) (q + 1) 0"
proof -
  define v' where "v' = u16_set v 0 q"
  define z' where "z' = f64_set (f64_set z 0 (Num t)) 1 (Num INF_val)"
  have q: "0 < q"
    using ok by (simp add: stack_ok_def)
  have vtop: "u16_get v' 0 = Inr (Some q)" "vval v' 0 = q"
    using q sz by (simp_all add: v'_def u16_get_set vval_set uint16_of_int_id)
  have z0: "0 < int (length z)"
    using sz(2) by linarith
  have ztop: "f64_get z' 0 = Num t" "zval z' 0 = t"
    using z0 by (simp_all add: z'_def f64_get_set zval_set)
  have zinf: "f64_get z' (0 + 1) = Num INF_val"
    using sz by (simp add: z'_def)
  have neg: "t < 0"
    using t(2) ok by (simp add: stack_ok_def)
  have ok': "stack_ok v' z' (q + 1) 0"
    unfolding stack_ok_def using q vtop ztop neg by auto
  have tp: "vval v 0 < q"
    using stack_ok_v [OF ok, of 0] by simp
  have low: "lowest c v' z' (q + 1) 0"
    unfolding lowest_def
  proof (intro allI impI, elim conjE)
    fix x j r
    assume s: "seg z' 0 j x" and r: "0 \<le> r" "r < q + 1"
    then have j: "j = 0" and x: "0 \<le> x"
      by (simp_all add: seg_def)
    have "seg z 0 0 x"
      using x by (simp add: seg_def)
    with lw r have "min (par c (vval v 0) x) (par c q x) \<le> par c r x"
      unfolding lowest_with_def by (metis zle_add1_eq_le)
    moreover have "par c q x \<le> par c (vval v 0) x"
      using t(1) neg x tp by (simp add: par_cross)
    ultimately show "par c (vval v' j) x \<le> par c r x"
      using j vtop(2) by simp
  qed
  show ?thesis
    using ok' low zinf by (simp add: env_inv_def v'_def z'_def)
qed

lemma pop_env:
  "stack_ok v z q k \<Longrightarrow> lowest_with c v z q k \<Longrightarrow> holds f len c \<Longrightarrow> q < len \<Longrightarrow>
   len \<le> int (length v) \<Longrightarrow> len < int (length z) \<Longrightarrow> len \<le> 65536 \<Longrightarrow>
         \<exists>k' s. pop f v z q k = Inr (k', s) \<and>
           env_inv c (u16_set v (k' + 1) q)
             (f64_set (f64_set z (k' + 1) s) (k' + 1 + 1) (Num INF_val)) (q + 1) (k' + 1)"
proof (induction f v z q k rule: pop.induct)
  case (1 f v z q k)
  note ok = "1.prems"(1) and lw = "1.prems"(2) and assms = "1.prems"(3-7)
  have k: "0 \<le> k" "k < q"
    using ok by (simp_all add: stack_ok_def)
  define t where "t = sep c (vval v k) q"
  have r: "u16_get v k = Inr (Some (vval v k))" and rb: "0 \<le> vval v k" "vval v k < q"
    using stack_ok_v [OF ok k(1)] by simp_all
  have s: "intersect f q (Some (vval v k)) = Inr (Num t)"
    using intersect_sep [OF assms(1) rb assms(2)] by (simp add: t_def)
  have zk: "f64_get z k = Num (zval z k)"
    using stack_ok_z [OF ok k(1)] by simp
  consider "t \<le> zval z k" "1 \<le> k" | "t \<le> zval z k" "k = 0" | "zval z k < t"
    using k(1) by linarith
  then show ?case
  proof cases
    case 1
    have "stack_ok v z q (k - 1)" "lowest_with c v z q (k - 1)"
      using stack_ok_pop [OF ok 1(2)] lowest_with_pop [OF ok 1(2) lw] 1(1) by (simp_all add: t_def)
    moreover have "js_le (Num t) (f64_get z k)" "- 1 < k - 1"
      using 1 zk by simp_all
    ultimately have "\<exists>k' s. pop f v z q (k - 1) = Inr (k', s) \<and>
           env_inv c (u16_set v (k' + 1) q)
             (f64_set (f64_set z (k' + 1) s) (k' + 1 + 1) (Num INF_val)) (q + 1) (k' + 1)"
      using "1.IH" [OF r s _ _ _ _ assms] by simp
    moreover have "pop f v z q k = pop f v z q (k - 1)"
      using r s zk 1 by (subst pop.simps) simp
    ultimately show ?thesis by simp
  next
    case 2
    have "pop f v z q k = Inr (- 1, Num t)"
      using r s zk 2 by (subst pop.simps) simp
    moreover have "env_inv c (u16_set v 0 q) (f64_set (f64_set z 0 (Num t)) 1 (Num INF_val)) (q + 1) 0"
    proof (rule push_bottom)
      show "stack_ok v z q 0" "lowest_with c v z q 0"
        using ok lw 2(2) by simp_all
      show "t = sep c (vval v 0) q" "t \<le> zval z 0"
        using 2 by (simp_all add: t_def)
      show "0 < int (length v)" "1 < int (length z)" "q < 65536"
        using k assms by linarith+
    qed
    ultimately show ?thesis by simp
  next
    case 3
    have "pop f v z q k = Inr (k, Num t)"
      using r s zk 3 by (subst pop.simps) simp
    moreover have "env_inv c (u16_set v (k + 1) q)
           (f64_set (f64_set z (k + 1) (Num t)) (k + 1 + 1) (Num INF_val)) (q + 1) (k + 1)"
    proof (rule push_on [OF ok lw t_def 3])
      show "k + 1 < int (length v)" "k + 2 < int (length z)" "q < 65536"
        using k assms by linarith+
    qed
    ultimately show ?thesis by simp
  qed
qed

lemma envelope_env:
  "env_inv c v z q k \<Longrightarrow> q \<le> len \<Longrightarrow> holds f len c \<Longrightarrow>
   len \<le> int (length v) \<Longrightarrow> len < int (length z) \<Longrightarrow> len \<le> 65536 \<Longrightarrow>
   envelope len f v z q k = Inr (v', z') \<Longrightarrow> \<exists>tp. env_inv c v' z' len tp"
proof (induction len f v z q k rule: envelope.induct)
  case (1 len f v z q k)
  show ?case
  proof (cases "q < len")
    case False
    with "1.prems"(7) have "v' = v" "z' = z"
      by (simp_all add: envelope.simps [of len f v z q k])
    moreover have "q = len"
      using False "1.prems"(2) by simp
    ultimately show ?thesis
      using "1.prems"(1) by blast
  next
    case True
    have "stack_ok v z q k" "lowest_with c v z q k"
      using "1.prems"(1) by (simp_all add: env_inv_def lowest_with_start)
    then obtain k' s where p: "pop f v z q k = Inr (k', s)"
      and e: "env_inv c (u16_set v (k' + 1) q)
                (f64_set (f64_set z (k' + 1) s) (k' + 1 + 1) (Num INF_val)) (q + 1) (k' + 1)"
      using pop_env [OF _ _ "1.prems"(3) True "1.prems"(4,5,6)] by blast
    have "envelope len f (u16_set v (k' + 1) q)
            (f64_set (f64_set z (k' + 1) s) (k' + 1 + 1) (Num INF_val)) (q + 1) (k' + 1) = Inr (v', z')"
      using "1.prems"(7) True p by (subst (asm) envelope.simps) (simp add: Let_def)
    then show ?thesis
      using "1.IH" [OF True p refl refl refl refl refl e] True "1.prems"(3-6) by simp
  qed
qed

lemma env_inv_init:
  assumes "0 < int (length v)" "1 < int (length z)"
  shows "env_inv c (u16_set v 0 0) (f64_set (f64_set z 0 (Num (- INF_val))) 1 (Num INF_val)) 1 0"
proof -
  define v' where "v' = u16_set v 0 0"
  define z' where "z' = f64_set (f64_set z 0 (Num (- INF_val))) 1 (Num INF_val)"
  have v: "u16_get v' 0 = Inr (Some 0)" "vval v' 0 = 0"
    using assms by (simp_all add: v'_def u16_get_set vval_set)
  have z0: "0 < int (length z)"
    using assms(2) by linarith
  have z: "f64_get z' 0 = Num (- INF_val)" "zval z' 0 = - INF_val" "f64_get z' (0 + 1) = Num INF_val"
    using assms z0 by (simp_all add: z'_def f64_get_set zval_set)
  have "stack_ok v' z' 1 0"
    unfolding stack_ok_def using v z INF_val_pos by auto
  moreover have "lowest c v' z' 1 0"
    unfolding lowest_def
  proof (intro allI impI, elim conjE)
    fix x j and r :: int
    assume "seg z' 0 j x" "0 \<le> r" "r < 1"
    then have "j = 0" "r = 0"
      by (simp_all add: seg_def)
    then show "par c (vval v' j) x \<le> par c r x"
      using v(2) by simp
  qed
  ultimately show ?thesis
    using z(3) by (simp add: env_inv_def v'_def z'_def)
qed

section \<open>The output pass\<close>

lemma cursor_seg:
  "stack_ok v z len tp \<Longrightarrow> f64_get z (tp + 1) = Num INF_val \<Longrightarrow> real_of_int q \<le> INF_val \<Longrightarrow>
   0 \<le> k \<Longrightarrow> k \<le> tp \<Longrightarrow> k = 0 \<or> zval z k < real_of_int q \<Longrightarrow>
   k \<le> cursor z q k \<and> cursor z q k \<le> tp \<and>
   (cursor z q k = 0 \<or> zval z (cursor z q k) < real_of_int q) \<and>
   (cursor z q k = tp \<or> real_of_int q \<le> zval z (cursor z q k + 1))"
proof (induction z q k rule: cursor.induct)
  case (1 z q k)
  note ok = "1.prems"(1)
  show ?case
  proof (cases "js_lt (f64_get z (k + 1)) (js_int q)")
    case True
    have "k \<noteq> tp"
      using True "1.prems"(2,3) by (auto simp: js_int_def)
    with "1.prems"(5) have lt: "k + 1 \<le> tp" by simp
    then have "f64_get z (k + 1) = Num (zval z (k + 1))"
      using stack_ok_z [OF ok, of "k + 1"] "1.prems"(4) by simp
    with True have "zval z (k + 1) < real_of_int q"
      by (simp add: js_int_def)
    moreover have eq: "cursor z q k = cursor z q (k + 1)"
      using True by (subst cursor.simps) simp
    ultimately show ?thesis
      using "1.IH" [OF True ok "1.prems"(2,3) _ lt] "1.prems"(4) unfolding eq by auto
  next
    case False
    have "real_of_int q \<le> zval z (k + 1)" if "k \<noteq> tp"
    proof -
      from that "1.prems"(5) have "k + 1 \<le> tp" by simp
      then have "f64_get z (k + 1) = Num (zval z (k + 1))"
        using stack_ok_z [OF ok, of "k + 1"] "1.prems"(4) by simp
      with False show ?thesis
        by (simp add: js_int_def)
    qed
    moreover have eq: "cursor z q k = k"
      using False by (subst cursor.simps) simp
    ultimately show ?thesis
      using "1.prems"(5,6) unfolding eq by auto
  qed
qed

lemma parabola_Num:
  assumes "f64_get f r = Num a"
  shows "parabola f q (Some r) =
         Num (a + (real_of_int q - real_of_int r) * (real_of_int q - real_of_int r))"
  using assms by (simp add: parabola_def f64_at_def js_idx_def js_int_def)

lemma dt1_eq:
  assumes "0 \<le> r" "r < n"
    and "\<And>r'. 0 \<le> r' \<Longrightarrow> r' < n \<Longrightarrow> par c r (real_of_int i) \<le> par c r' (real_of_int i)"
  shows "dt1 c n i = par c r (real_of_int i)"
  unfolding dt1_def
proof (rule Min_eqI)
  show "finite ((\<lambda>r. c r + (real_of_int i - real_of_int r) * (real_of_int i - real_of_int r)) ` {0..<n})"
    by simp
  show "par c r (real_of_int i)
        \<in> (\<lambda>r. c r + (real_of_int i - real_of_int r) * (real_of_int i - real_of_int r)) ` {0..<n}"
    using assms(1,2) by (auto simp: par_def)
  show "par c r (real_of_int i) \<le> y"
    if "y \<in> (\<lambda>r. c r + (real_of_int i - real_of_int r) * (real_of_int i - real_of_int r)) ` {0..<n}"
    for y
    using that assms(3) by (auto simp: par_def)
qed

lemma scan_dt1:
  "env_inv c v z len tp \<Longrightarrow> holds f len c \<Longrightarrow> real_of_int len \<le> INF_val \<Longrightarrow> stride \<noteq> 0 \<Longrightarrow>
   (\<forall>i. 0 \<le> i \<and> i < len \<longrightarrow> 0 \<le> offset + i * stride \<and> offset + i * stride < int (length grid)) \<Longrightarrow>
   0 \<le> q \<Longrightarrow> 0 \<le> k \<Longrightarrow> k \<le> tp \<Longrightarrow> k = 0 \<or> zval z k < real_of_int q \<Longrightarrow>
   scan offset stride len f v z grid q k = Inr g \<Longrightarrow>
   (\<forall>i. q \<le> i \<and> i < len \<longrightarrow> f64_get g (offset + i * stride) = Num (dt1 c len i))"
proof (induction offset stride len f v z grid q k rule: scan.induct)
  case (1 offset stride len f v z grid q k)
  show ?case
  proof (cases "q < len")
    case False
    then show ?thesis by auto
  next
    case True
    note inv = "1.prems"(1)
    have ok: "stack_ok v z len tp" and low: "lowest c v z len tp"
      and inf: "f64_get z (tp + 1) = Num INF_val"
      using inv by (simp_all add: env_inv_def)
    define k' where "k' = cursor z q k"
    define r where "r = vval v k'"
    have q: "real_of_int q \<le> INF_val"
      using True "1.prems"(3) by simp
    have k': "k \<le> k'" "k' \<le> tp" "k' = 0 \<or> zval z k' < real_of_int q"
      "k' = tp \<or> real_of_int q \<le> zval z (k' + 1)"
      using cursor_seg [OF ok inf q "1.prems"(7,8,9)] by (simp_all add: k'_def)
    have k'0: "0 \<le> k'"
      using k'(1) "1.prems"(7) by simp
    have r: "u16_get v k' = Inr (Some r)" "0 \<le> r" "r < len"
      using stack_ok_v [OF ok k'0 k'(2)] by (simp_all add: r_def)
    have "seg z tp k' (real_of_int q)"
      using k' k'0 "1.prems"(6) by (auto simp: seg_def)
    then have "par c r (real_of_int q) \<le> par c r' (real_of_int q)" if "0 \<le> r'" "r' < len" for r'
      using low that unfolding lowest_def r_def by blast
    then have d: "dt1 c len q = par c r (real_of_int q)"
      using dt1_eq [OF r(2,3)] by simp
    have "f64_get f r = Num (c r)"
      using "1.prems"(2) r(2,3) by (simp add: holds_def)
    then have p: "parabola f q (Some r) = Num (dt1 c len q)"
      by (simp add: parabola_Num d par_def)
    define grid' where "grid' = f64_set grid (offset + q * stride) (Num (dt1 c len q))"
    have s: "scan offset stride len f v z grid' (q + 1) k' = Inr g"
      using "1.prems"(10) True r(1) p
      by (subst (asm) scan.simps) (simp add: Let_def k'_def grid'_def)
    have range: "0 \<le> offset + q * stride" "offset + q * stride < int (length grid)"
      using "1.prems"(5,6) True by simp_all
    have rest: "\<forall>i. q + 1 \<le> i \<and> i < len \<longrightarrow> f64_get g (offset + i * stride) = Num (dt1 c len i)"
    proof (rule "1.IH" [OF True refl r(1) [unfolded k'_def] inv "1.prems"(2,3,4) _ _
          k'0 [unfolded k'_def] k'(2) [unfolded k'_def] _ _])
      show "\<forall>i. 0 \<le> i \<and> i < len \<longrightarrow> 0 \<le> offset + i * stride \<and>
              offset + i * stride < int (length (f64_set grid (offset + q * stride) (parabola f q (Some r))))"
        using "1.prems"(5) by simp
      show "0 \<le> q + 1"
        using "1.prems"(6) by simp
      show "cursor z q k = 0 \<or> zval z (cursor z q k) < real_of_int (q + 1)"
        using k'(3) by (auto simp: k'_def)
      show "scan offset stride len f v z
              (f64_set grid (offset + q * stride) (parabola f q (Some r))) (q + 1) (cursor z q k) = Inr g"
        using s p by (simp add: grid'_def k'_def)
    qed
    have "\<forall>i. q + 1 \<le> i \<and> i < len \<longrightarrow> offset + q * stride \<noteq> offset + i * stride"
      using "1.prems"(4) by simp
    then have "f64_get g (offset + q * stride) = f64_get grid' (offset + q * stride)"
      using scan_frame [OF s] by blast
    then have here: "f64_get g (offset + q * stride) = Num (dt1 c len q)"
      using range by (simp add: grid'_def)
    show ?thesis
    proof (intro allI impI)
      fix i
      assume "q \<le> i \<and> i < len"
      then consider "i = q" | "q + 1 \<le> i \<and> i < len"
        by linarith
      then show "f64_get g (offset + i * stride) = Num (dt1 c len i)"
        using here rest by cases simp_all
    qed
  qed
qed

lemma holds_sample:
  assumes "\<forall>i. 0 \<le> i \<and> i < len \<longrightarrow> f64_get grid (offset + i * stride) = Num (c i)"
    and "len \<le> int (length f)"
  shows "holds (sample grid offset stride len f 0) len c"
  using assms by (simp add: holds_def sample_get)

text \<open>On a line of numbers, with scratch buffers that hold it, \<open>edt1d\<close> computes \<open>dt1\<close>.\<close>

lemma edt1d_dt1:
  assumes cells: "\<forall>i. 0 \<le> i \<and> i < len \<longrightarrow> f64_get grid (offset + i * stride) = Num (c i)"
    and sz: "len \<le> int (length f)" "len \<le> int (length v)" "len < int (length z)" "len \<le> 65536"
    and stride: "stride \<noteq> 0"
    and run: "edt1d grid offset stride len f v z = Inr (g, f', v', z')"
    and i: "0 \<le> i" "i < len"
  shows "f64_get g (offset + i * stride) = Num (dt1 c len i)"
proof -
  note parts = edt1d_cases [OF run]
  have len: "1 \<le> len"
    using i by simp
  have h: "holds f' len c"
    using holds_sample [OF cells sz(1)] parts(1) by simp
  have "env_inv c (u16_set v 0 0) (f64_set (f64_set z 0 (Num (- INF_val))) 1 (Num INF_val)) 1 0"
  proof (rule env_inv_init)
    show "0 < int (length v)" "1 < int (length z)"
      using len sz by linarith+
  qed
  then obtain tp where inv: "env_inv c v' z' len tp"
    using envelope_env [OF _ len h _ _ sz(4) parts(2)] sz by auto
  have tp: "0 \<le> tp"
    using inv by (simp add: env_inv_def stack_ok_def)
  have inf: "real_of_int len \<le> INF_val"
    using sz(4) by (simp add: INF_val_def)
  have range: "\<forall>i. 0 \<le> i \<and> i < len \<longrightarrow>
      0 \<le> offset + i * stride \<and> offset + i * stride < int (length grid)"
    using cells f64_get_Num_range by blast
  show ?thesis
    using scan_dt1 [OF inv h inf stride range _ _ tp _ parts(3)] i by simp
qed

section \<open>Columns, then rows\<close>

lemma dt1_le:
  assumes "0 \<le> r" "r < n"
  shows "dt1 c n i \<le> c r + (real_of_int i - real_of_int r) * (real_of_int i - real_of_int r)"
  unfolding dt1_def using assms by (intro Min_le) auto

lemma dt1_attained:
  assumes "0 < n"
  shows "\<exists>r. 0 \<le> r \<and> r < n \<and>
           dt1 c n i = c r + (real_of_int i - real_of_int r) * (real_of_int i - real_of_int r)"
proof -
  let ?A = "(\<lambda>r. c r + (real_of_int i - real_of_int r) * (real_of_int i - real_of_int r)) ` {0..<n}"
  have "finite ?A" "?A \<noteq> {}"
    using assms by auto
  then have "Min ?A \<in> ?A"
    by (rule Min_in)
  then show ?thesis
    unfolding dt1_def by auto
qed

lemma dt2_eq:
  assumes "0 \<le> x'" "x' < w" "0 \<le> y'" "y' < h"
    and "m = c x' y' + (real_of_int x - real_of_int x') * (real_of_int x - real_of_int x')
                    + (real_of_int y - real_of_int y') * (real_of_int y - real_of_int y')"
    and "\<And>a b. 0 \<le> a \<Longrightarrow> a < w \<Longrightarrow> 0 \<le> b \<Longrightarrow> b < h \<Longrightarrow>
           m \<le> c a b + (real_of_int x - real_of_int a) * (real_of_int x - real_of_int a)
                      + (real_of_int y - real_of_int b) * (real_of_int y - real_of_int b)"
  shows "dt2 c w h x y = m"
  unfolding dt2_def
proof (rule Min_eqI)
  let ?F = "\<lambda>(x', y'). c x' y' + (real_of_int x - real_of_int x') * (real_of_int x - real_of_int x')
                              + (real_of_int y - real_of_int y') * (real_of_int y - real_of_int y')"
  show "finite (?F ` ({0..<w} \<times> {0..<h}))"
    by simp
  have "(x', y') \<in> {0..<w} \<times> {0..<h}"
    using assms(1-4) by simp
  then have "?F (x', y') \<in> ?F ` ({0..<w} \<times> {0..<h})"
    by (rule imageI)
  then show "m \<in> ?F ` ({0..<w} \<times> {0..<h})"
    using assms(5) by simp
  show "m \<le> t" if "t \<in> ?F ` ({0..<w} \<times> {0..<h})" for t
    using that assms(6) by auto
qed

lemma dt1_dt1:
  assumes "0 < w" "0 < h"
  shows "dt1 (\<lambda>x'. dt1 (c x') h y) w x = dt2 c w h x y"
proof -
  obtain a where a: "0 \<le> a" "a < w"
    "dt1 (\<lambda>x'. dt1 (c x') h y) w x =
       dt1 (c a) h y + (real_of_int x - real_of_int a) * (real_of_int x - real_of_int a)"
    using dt1_attained [OF assms(1)] by blast
  obtain b where b: "0 \<le> b" "b < h"
    "dt1 (c a) h y = c a b + (real_of_int y - real_of_int b) * (real_of_int y - real_of_int b)"
    using dt1_attained [OF assms(2)] by blast
  show ?thesis
  proof (rule dt2_eq [OF a(1,2) b(1,2), symmetric])
    show "dt1 (\<lambda>x'. dt1 (c x') h y) w x =
          c a b + (real_of_int x - real_of_int a) * (real_of_int x - real_of_int a)
                + (real_of_int y - real_of_int b) * (real_of_int y - real_of_int b)"
      using a(3) b(3) by simp
  next
    fix a' b'
    assume r: "0 \<le> a'" "a' < w" "0 \<le> b'" "b' < (h::int)"
    have "dt1 (\<lambda>x'. dt1 (c x') h y) w x
          \<le> dt1 (c a') h y + (real_of_int x - real_of_int a') * (real_of_int x - real_of_int a')"
      by (rule dt1_le [OF r(1,2)])
    also have "dt1 (c a') h y
          \<le> c a' b' + (real_of_int y - real_of_int b') * (real_of_int y - real_of_int b')"
      by (rule dt1_le [OF r(3,4)])
    finally show "dt1 (\<lambda>x'. dt1 (c x') h y) w x
          \<le> c a' b' + (real_of_int x - real_of_int a') * (real_of_int x - real_of_int a')
                     + (real_of_int y - real_of_int b') * (real_of_int y - real_of_int b')"
      by simp
  qed
qed

lemma fits_line:
  assumes "fits w h f v z"
  shows "w \<le> int (length f)" "w \<le> int (length v)" "w < int (length z)" "w \<le> 65536"
    and "h \<le> int (length f)" "h \<le> int (length v)" "h < int (length z)" "h \<le> 65536"
  using assms by (simp_all add: fits_def)

lemma fits_lengths:
  "fits w h f v z \<Longrightarrow> length f' = length f \<Longrightarrow> length v' = length v \<Longrightarrow> length z' = length z \<Longrightarrow>
   fits w h f' v' z'"
  by (simp add: fits_def)

lemma edt_columns_dt1:
  "edt_columns w h x grid f v z = Inr (g, f', v', z') \<Longrightarrow> 0 \<le> x \<Longrightarrow> fits w h f v z \<Longrightarrow>
   (\<forall>a b. x \<le> a \<and> a < w \<and> 0 \<le> b \<and> b < h \<longrightarrow> cell grid w a b = Num (c a b)) \<Longrightarrow>
   length g = length grid \<and> length f' = length f \<and> length v' = length v \<and> length z' = length z \<and>
   (\<forall>a b. x \<le> a \<and> a < w \<and> 0 \<le> b \<and> b < h \<longrightarrow> cell g w a b = Num (dt1 (c a) h b)) \<and>
   (\<forall>j. (\<forall>a b. x \<le> a \<and> a < w \<and> 0 \<le> b \<and> b < h \<longrightarrow> j \<noteq> b * w + a) \<longrightarrow>
        f64_get g j = f64_get grid j)"
proof (induction w h x grid f v z rule: edt_columns.induct)
  case (1 w h x grid f v z)
  show ?case
  proof (cases "x < w")
    case False
    with "1.prems"(1) have "g = grid" "f' = f" "v' = v" "z' = z"
      by (simp_all add: edt_columns.simps [of w h x grid f v z])
    with False show ?thesis by auto
  next
    case True
    from "1.prems"(1) True obtain d1 f1 v1 z1 where
      e: "edt1d grid x w h f v z = Inr (d1, f1, v1, z1)" and
      r: "edt_columns w h (x + 1) d1 f1 v1 z1 = Inr (g, f', v', z')"
      by (subst (asm) edt_columns.simps) (auto split: sum.splits)
    note fr = edt1d_frame [OF e]
    note sz = fits_line [OF "1.prems"(3)]
    have w: "w \<noteq> 0"
      using True "1.prems"(2) by simp
    have line: "\<forall>i. 0 \<le> i \<and> i < h \<longrightarrow> f64_get grid (x + i * w) = Num (c x i)"
      using "1.prems"(4) True by (simp add: cell_def add.commute)
    have col: "cell d1 w x b = Num (dt1 (c x) h b)" if "0 \<le> b" "b < h" for b
      using edt1d_dt1 [OF line sz(5,6,7,8) w e that] by (simp add: cell_def add.commute)
    have other: "f64_get d1 (b * w + a) = f64_get grid (b * w + a)" if "0 \<le> a" "a < w" "a \<noteq> x" for a b
      using fr(5) [of "b * w + a"] column_other [OF that(1,2) "1.prems"(2) True that(3)] by blast
    have cells1: "\<forall>a b. x + 1 \<le> a \<and> a < w \<and> 0 \<le> b \<and> b < h \<longrightarrow> cell d1 w a b = Num (c a b)"
      using "1.prems"(2,4) other by (simp add: cell_def)
    have fits1: "fits w h f1 v1 z1"
      using fits_lengths [OF "1.prems"(3) fr(2,3,4)] .
    have x1: "0 \<le> x + 1"
      using "1.prems"(2) by simp
    note ih = "1.IH" [OF True e refl refl refl r x1 fits1 cells1]
    have here: "cell g w x b = Num (dt1 (c x) h b)" if "0 \<le> b" "b < h" for b
    proof -
      have "b * w + x \<noteq> b' * w + a" if "x + 1 \<le> a \<and> a < w \<and> 0 \<le> b' \<and> b' < h" for a b'
      proof -
        have "0 \<le> a" "a < w" "x \<noteq> a"
          using that "1.prems"(2) by simp_all
        then show ?thesis
          using column_other [OF "1.prems"(2) True, of a b b'] by (simp add: add.commute)
      qed
      then have "f64_get g (b * w + x) = f64_get d1 (b * w + x)"
        using ih by blast
      then show ?thesis
        using col [OF that] by (simp add: cell_def)
    qed
    have frame: "f64_get g j = f64_get grid j"
      if "\<forall>a b. x \<le> a \<and> a < w \<and> 0 \<le> b \<and> b < h \<longrightarrow> j \<noteq> b * w + a" for j
    proof -
      have "f64_get g j = f64_get d1 j"
        using ih that by simp
      moreover have "\<forall>i. 0 \<le> i \<and> i < h \<longrightarrow> j \<noteq> x + i * w"
        using that True by (simp add: add.commute)
      ultimately show ?thesis
        using fr(5) [of j] by simp
    qed
    have "cell g w a b = Num (dt1 (c a) h b)" if "x \<le> a" "a < w" "0 \<le> b" "b < h" for a b
    proof (cases "a = x")
      case True
      then show ?thesis using here that by simp
    next
      case False
      then show ?thesis using ih that by simp
    qed
    then show ?thesis
      using ih fr(1-4) frame by simp
  qed
qed


lemma edt_rows_dt1:
  "edt_rows w h y grid f v z = Inr (g, f', v', z') \<Longrightarrow> 0 \<le> y \<Longrightarrow> fits w h f v z \<Longrightarrow>
   (\<forall>a b. 0 \<le> a \<and> a < w \<and> y \<le> b \<and> b < h \<longrightarrow> cell grid w a b = Num (c a b)) \<Longrightarrow>
   length g = length grid \<and> length f' = length f \<and> length v' = length v \<and> length z' = length z \<and>
   (\<forall>a b. 0 \<le> a \<and> a < w \<and> y \<le> b \<and> b < h \<longrightarrow> cell g w a b = Num (dt1 (\<lambda>x. c x b) w a)) \<and>
   (\<forall>j. (\<forall>a b. 0 \<le> a \<and> a < w \<and> y \<le> b \<and> b < h \<longrightarrow> j \<noteq> b * w + a) \<longrightarrow>
        f64_get g j = f64_get grid j)"
proof (induction w h y grid f v z rule: edt_rows.induct)
  case (1 w h y grid f v z)
  show ?case
  proof (cases "y < h")
    case False
    with "1.prems"(1) have "g = grid" "f' = f" "v' = v" "z' = z"
      by (simp_all add: edt_rows.simps [of w h y grid f v z])
    with False show ?thesis by auto
  next
    case True
    from "1.prems"(1) True obtain d1 f1 v1 z1 where
      e: "edt1d grid (y * w) 1 w f v z = Inr (d1, f1, v1, z1)" and
      r: "edt_rows w h (y + 1) d1 f1 v1 z1 = Inr (g, f', v', z')"
      by (subst (asm) edt_rows.simps) (auto split: sum.splits)
    note fr = edt1d_frame [OF e]
    note sz = fits_line [OF "1.prems"(3)]
    have line: "\<forall>i. 0 \<le> i \<and> i < w \<longrightarrow> f64_get grid (y * w + i * 1) = Num (c i y)"
      using "1.prems"(4) True by (simp add: cell_def)
    have row: "cell d1 w a y = Num (dt1 (\<lambda>x. c x y) w a)" if "0 \<le> a" "a < w" for a
      using edt1d_dt1 [OF line sz(1,2,3,4) _ e that] by (simp add: cell_def)
    have other: "f64_get d1 (b * w + a) = f64_get grid (b * w + a)" if "0 \<le> a" "a < w" "b \<noteq> y" for a b
      using fr(5) [of "b * w + a"] row_other [OF that] by blast
    have cells1: "\<forall>a b. 0 \<le> a \<and> a < w \<and> y + 1 \<le> b \<and> b < h \<longrightarrow> cell d1 w a b = Num (c a b)"
      using "1.prems"(2,4) other by (simp add: cell_def)
    have fits1: "fits w h f1 v1 z1"
      using fits_lengths [OF "1.prems"(3) fr(2,3,4)] .
    have y1: "0 \<le> y + 1"
      using "1.prems"(2) by simp
    note ih = "1.IH" [OF True e refl refl refl r y1 fits1 cells1]
    have here: "cell g w a y = Num (dt1 (\<lambda>x. c x y) w a)" if "0 \<le> a" "a < w" for a
    proof -
      have "y * w + a \<noteq> b' * w + a'" if "0 \<le> a' \<and> a' < w \<and> y + 1 \<le> b' \<and> b' < h" for a' b'
      proof -
        have "y \<noteq> b'"
          using that by simp
        then show ?thesis
          using row_other [OF \<open>0 \<le> a\<close> \<open>a < w\<close>, of y b' a'] that by simp
      qed
      then have "f64_get g (y * w + a) = f64_get d1 (y * w + a)"
        using ih by blast
      then show ?thesis
        using row [OF that] by (simp add: cell_def)
    qed
    have frame: "f64_get g j = f64_get grid j"
      if "\<forall>a b. 0 \<le> a \<and> a < w \<and> y \<le> b \<and> b < h \<longrightarrow> j \<noteq> b * w + a" for j
    proof -
      have "f64_get g j = f64_get d1 j"
        using ih that by simp
      moreover have "\<forall>i. 0 \<le> i \<and> i < w \<longrightarrow> j \<noteq> y * w + i * 1"
        using that True by simp
      ultimately show ?thesis
        using fr(5) [of j] by simp
    qed
    have "cell g w a b = Num (dt1 (\<lambda>x. c x b) w a)" if "0 \<le> a" "a < w" "y \<le> b" "b < h" for a b
    proof (cases "b = y")
      case True
      then show ?thesis using here that by simp
    next
      case False
      then show ?thesis using ih that by simp
    qed
    then show ?thesis
      using ih fr(1-4) frame by simp
  qed
qed

lemma edt_cases:
  assumes "edt grid w h f v z = Inr (g, f', v', z')"
  shows "\<exists>g1 f1 v1 z1. edt_columns w h 0 grid f v z = Inr (g1, f1, v1, z1) \<and>
           edt_rows w h 0 g1 f1 v1 z1 = Inr (g, f', v', z')"
  using assms by (auto simp: edt_def split: sum.splits)

text \<open>On a grid of numbers, with scratch buffers that hold its lines, \<open>edt\<close> computes \<open>dt2\<close>
  and leaves the array as it was outside the grid.\<close>

lemma edt_dt2:
  assumes run: "edt grid w h f v z = Inr (g, f', v', z')"
    and fits: "fits w h f v z"
    and cells: "\<forall>a b. 0 \<le> a \<and> a < w \<and> 0 \<le> b \<and> b < h \<longrightarrow> cell grid w a b = Num (c a b)"
  shows "length g = length grid" and "length f' = length f"
    and "length v' = length v" and "length z' = length z"
    and "0 \<le> x \<Longrightarrow> x < w \<Longrightarrow> 0 \<le> y \<Longrightarrow> y < h \<Longrightarrow> cell g w x y = Num (dt2 c w h x y)"
    and "(\<forall>a b. 0 \<le> a \<and> a < w \<and> 0 \<le> b \<and> b < h \<longrightarrow> j \<noteq> b * w + a) \<Longrightarrow>
           f64_get g j = f64_get grid j"
proof -
  from edt_cases [OF run] obtain g1 f1 v1 z1 where
    c1: "edt_columns w h 0 grid f v z = Inr (g1, f1, v1, z1)" and
    r1: "edt_rows w h 0 g1 f1 v1 z1 = Inr (g, f', v', z')"
    by blast
  note cols = edt_columns_dt1 [OF c1 order_refl fits cells]
  have fits1: "fits w h f1 v1 z1"
    using fits_lengths [OF fits] cols by simp
  have cells1: "\<forall>a b. 0 \<le> a \<and> a < w \<and> 0 \<le> b \<and> b < h \<longrightarrow>
      cell g1 w a b = Num (dt1 (c a) h b)"
    using cols by simp
  note rows = edt_rows_dt1 [OF r1 order_refl fits1 cells1]
  show "length g = length grid" "length f' = length f" "length v' = length v" "length z' = length z"
    using cols rows by simp_all
  show "cell g w x y = Num (dt2 c w h x y)" if "0 \<le> x" "x < w" "0 \<le> y" "y < h"
  proof -
    have "cell g w x y = Num (dt1 (\<lambda>a. dt1 (c a) h y) w x)"
      using rows that by simp
    moreover have "0 < w" "0 < h"
      using that by simp_all
    ultimately show ?thesis
      by (simp add: dt1_dt1)
  qed
  show "f64_get g j = f64_get grid j"
    if "\<forall>a b. 0 \<le> a \<and> a < w \<and> 0 \<le> b \<and> b < h \<longrightarrow> j \<noteq> b * w + a"
  proof -
    have "f64_get g j = f64_get g1 j"
      using rows that by simp
    also have "\<dots> = f64_get grid j"
      using cols that by simp
    finally show ?thesis .
  qed
qed

lemma edt_columns_Inr: "\<exists>g f' v' z'. edt_columns w h x grid f v z = Inr (g, f', v', z')"
proof (induction w h x grid f v z rule: edt_columns.induct)
  case (1 w h x grid f v z)
  show ?case
  proof (cases "x < w")
    case False
    then show ?thesis by (subst edt_columns.simps) simp
  next
    case True
    obtain d1 f1 v1 z1 where e: "edt1d grid x w h f v z = Inr (d1, f1, v1, z1)"
      using edt1d_Inr by blast
    from "1.IH" [OF True e refl refl refl] True e show ?thesis
      by (subst edt_columns.simps) simp
  qed
qed

lemma edt_rows_Inr: "\<exists>g f' v' z'. edt_rows w h y grid f v z = Inr (g, f', v', z')"
proof (induction w h y grid f v z rule: edt_rows.induct)
  case (1 w h y grid f v z)
  show ?case
  proof (cases "y < h")
    case False
    then show ?thesis by (subst edt_rows.simps) simp
  next
    case True
    obtain d1 f1 v1 z1 where e: "edt1d grid (y * w) 1 w f v z = Inr (d1, f1, v1, z1)"
      using edt1d_Inr by blast
    from "1.IH" [OF True e refl refl refl] True e show ?thesis
      by (subst edt_rows.simps) simp
  qed
qed

lemma edt_Inr: "\<exists>g f' v' z'. edt grid w h f v z = Inr (g, f', v', z')"
proof -
  obtain g1 f1 v1 z1 where "edt_columns w h 0 grid f v z = Inr (g1, f1, v1, z1)"
    using edt_columns_Inr by blast
  then show ?thesis
    using edt_rows_Inr [of w h 0 g1 f1 v1 z1] by (simp add: edt_def)
qed

lemma square_le_bound:
  fixes d :: int
  assumes "- b \<le> d" "d \<le> b"
  shows "real_of_int d * real_of_int d \<le> real_of_int b * real_of_int b"
proof -
  have "\<bar>real_of_int d\<bar> \<le> real_of_int b"
    using assms by simp
  then have "\<bar>real_of_int d\<bar> * \<bar>real_of_int d\<bar> \<le> real_of_int b * real_of_int b"
    by (intro mult_mono) simp_all
  then show ?thesis
    by (simp add: abs_mult_self_eq)
qed

text \<open>The transform of a grid with one zero cell among sentinels.\<close>

lemma dt2_single_zero:
  assumes x0: "0 \<le> x0" "x0 < w" and y0: "0 \<le> y0" "y0 < h"
    and x: "0 \<le> x" "x < w" and y: "0 \<le> y" "y < h"
    and wh: "w \<le> 65536" "h \<le> 65536"
  shows "dt2 (\<lambda>a b. if a = x0 \<and> b = y0 then 0 else INF_val) w h x y =
         real_of_int ((x - x0) * (x - x0) + (y - y0) * (y - y0))"
proof (rule dt2_eq [OF x0 y0])
  let ?m = "real_of_int ((x - x0) * (x - x0) + (y - y0) * (y - y0))"
  show "?m = (if x0 = x0 \<and> y0 = y0 then 0 else INF_val)
             + (real_of_int x - real_of_int x0) * (real_of_int x - real_of_int x0)
             + (real_of_int y - real_of_int y0) * (real_of_int y - real_of_int y0)"
    by simp
  have "real_of_int (x - x0) * real_of_int (x - x0) \<le> real_of_int 65536 * real_of_int 65536"
    using x0 x wh by (intro square_le_bound) simp_all
  moreover have "real_of_int (y - y0) * real_of_int (y - y0) \<le> real_of_int 65536 * real_of_int 65536"
    using y0 y wh by (intro square_le_bound) simp_all
  ultimately have m: "?m \<le> INF_val"
    by (simp add: INF_val_def)
  fix a b
  assume "0 \<le> a" "a < w" "0 \<le> b" "b < h"
  show "?m \<le> (if a = x0 \<and> b = y0 then 0 else INF_val)
             + (real_of_int x - real_of_int a) * (real_of_int x - real_of_int a)
             + (real_of_int y - real_of_int b) * (real_of_int y - real_of_int b)"
  proof (cases "a = x0 \<and> b = y0")
    case True
    then show ?thesis by simp
  next
    case False
    have "?m \<le> INF_val + 0 + 0"
      using m by simp
    also have "\<dots> \<le> INF_val + (real_of_int x - real_of_int a) * (real_of_int x - real_of_int a)
                      + (real_of_int y - real_of_int b) * (real_of_int y - real_of_int b)"
      by (intro add_mono order_refl) simp_all
    finally show ?thesis
      using False by simp
  qed
qed



text \<open>\<open>edt\<close> returns a grid of the length it was given.\<close>

lemma edt_columns_length:
  "edt_columns w h x grid f v z = Inr (g, f', v', z') \<Longrightarrow> length g = length grid"
proof (induction w h x grid f v z rule: edt_columns.induct)
  case (1 w h x grid f v z)
  show ?case
  proof (cases "x < w")
    case False
    with "1.prems" show ?thesis
      by (simp add: edt_columns.simps [of w h x grid f v z])
  next
    case True
    from "1.prems" True obtain g1 f1 v1 z1 where
      p: "edt1d grid x w h f v z = Inr (g1, f1, v1, z1)" and
      r: "edt_columns w h (x + 1) g1 f1 v1 z1 = Inr (g, f', v', z')"
      by (subst (asm) edt_columns.simps) (auto split: sum.splits)
    from "1.IH" [OF True p refl refl refl r] edt1d_frame(1) [OF p] show ?thesis
      by simp
  qed
qed

lemma edt_rows_length:
  "edt_rows w h y grid f v z = Inr (g, f', v', z') \<Longrightarrow> length g = length grid"
proof (induction w h y grid f v z rule: edt_rows.induct)
  case (1 w h y grid f v z)
  show ?case
  proof (cases "y < h")
    case False
    with "1.prems" show ?thesis
      by (simp add: edt_rows.simps [of w h y grid f v z])
  next
    case True
    from "1.prems" True obtain g1 f1 v1 z1 where
      p: "edt1d grid (y * w) 1 w f v z = Inr (g1, f1, v1, z1)" and
      r: "edt_rows w h (y + 1) g1 f1 v1 z1 = Inr (g, f', v', z')"
      by (subst (asm) edt_rows.simps) (auto split: sum.splits)
    from "1.IH" [OF True p refl refl refl r] edt1d_frame(1) [OF p] show ?thesis
      by simp
  qed
qed

lemma edt_length:
  assumes "edt grid w h f v z = Inr (g, f', v', z')"
  shows "length g = length grid"
proof -
  from assms obtain g1 f1 v1 z1 where
    c: "edt_columns w h 0 grid f v z = Inr (g1, f1, v1, z1)" and
    r: "edt_rows w h 0 g1 f1 v1 z1 = Inr (g, f', v', z')"
    by (auto simp: edt_def split: sum.splits)
  show ?thesis
    using edt_columns_length [OF c] edt_rows_length [OF r] by simp
qed

section \<open>Reflections\<close>


lemma cell_index_bound:
  fixes w h x y :: int
  assumes "0 \<le> x" "x < w" "0 \<le> y" "y < h"
  shows "0 \<le> y * w + x" "y * w + x < w * h"
proof -
  show "0 \<le> y * w + x"
    using assms by simp
  have "y * w \<le> (h - 1) * w"
    using assms by (intro mult_right_mono) simp_all
  then show "y * w + x < w * h"
    using assms(2) by (simp add: algebra_simps)
qed





lemma reflect_ok:
  fixes a n :: int
  assumes "0 \<le> a" "a < n"
  shows "0 \<le> n - 1 - a \<and> n - 1 - a < n \<and> n - 1 - (n - 1 - a) = a"
  using assms by simp

lemma reflect_dist:
  "(real_of_int (n - 1 - x) - real_of_int (n - 1 - a)) * (real_of_int (n - 1 - x) - real_of_int (n - 1 - a))
     = (real_of_int x - real_of_int a) * (real_of_int x - real_of_int a)"
  by (simp add: algebra_simps)



section \<open>The order of the passes\<close>

lemma passes_append:
  "passes (ps @ qs) grid f v z =
     (case passes ps grid f v z of Inl e \<Rightarrow> Inl e | Inr (grid, f, v, z) \<Rightarrow> passes qs grid f v z)"
proof (induction ps arbitrary: grid f v z)
  case Nil
  show ?case by simp
next
  case (Cons p ps)
  obtain offset stride len where p: "p = (offset, stride, len)"
    by (cases p)
  show ?case
    by (simp add: p Cons.IH split: sum.splits)
qed

lemma edt_columns_passes:
  "edt_columns w h x grid f v z = passes (map (\<lambda>x. (x, w, h)) [x..w - 1]) grid f v z"
proof (induction w h x grid f v z rule: edt_columns.induct)
  case (1 w h x grid f v z)
  show ?case
  proof (cases "x < w")
    case False
    then show ?thesis
      by (subst edt_columns.simps) simp
  next
    case True
    then have u: "[x..w - 1] = x # [x + 1..w - 1]"
      by (simp add: upto_rec1)
    show ?thesis
      using True "1.IH" [OF True]
      by (subst edt_columns.simps) (simp add: u split: sum.splits)
  qed
qed

lemma edt_rows_passes:
  "edt_rows w h y grid f v z = passes (map (\<lambda>y. (y * w, 1, w)) [y..h - 1]) grid f v z"
proof (induction w h y grid f v z rule: edt_rows.induct)
  case (1 w h y grid f v z)
  show ?case
  proof (cases "y < h")
    case False
    then show ?thesis
      by (subst edt_rows.simps) simp
  next
    case True
    then have u: "[y..h - 1] = y # [y + 1..h - 1]"
      by (simp add: upto_rec1)
    show ?thesis
      using True "1.IH" [OF True]
      by (subst edt_rows.simps) (simp add: u split: sum.splits)
  qed
qed

section \<open>The output bytes\<close>

lemma u8_set64_length [simp]: "length (u8_set64 a i x) = length a"
  by (simp add: u8_set64_def)

lemma u8_set64_nth_other: "0 \<le> j \<Longrightarrow> j \<noteq> i \<Longrightarrow> u8_set64 a i x ! nat j = a ! nat j"
  by (auto simp: u8_set64_def nth_list_update)

lemma quantize64_bytes:
  "0 \<le> i \<Longrightarrow>
   length (quantize64 rad cu outer inner n i d0) = length d0 \<and>
   (\<forall>j. i \<le> j \<and> j < n \<and> j < int (length d0) \<longrightarrow>
      quantize64 rad cu outer inner n i d0 ! nat j =
        ToUint8Clamp64 (sdf_value64 rad cu (get64 outer j) (get64 inner j))) \<and>
   (\<forall>j. 0 \<le> j \<and> j < i \<longrightarrow> quantize64 rad cu outer inner n i d0 ! nat j = d0 ! nat j)"
proof (induction rad cu outer inner n i d0 rule: quantize64.induct)
  case (1 rad cu outer inner n i d0)
  show ?case
  proof (cases "i < n")
    case False
    then have "quantize64 rad cu outer inner n i d0 = d0"
      by (simp add: quantize64.simps [of rad cu outer inner n i d0])
    with False show ?thesis by auto
  next
    case True
    define b where "b = sdf_value64 rad cu (get64 outer i) (get64 inner i)"
    define d where "d = quantize64 rad cu outer inner n (i + 1) (u8_set64 d0 i b)"
    have r: "quantize64 rad cu outer inner n i d0 = d"
      using True by (subst quantize64.simps) (simp add: d_def b_def)
    have i1: "0 \<le> i + 1"
      using "1.prems" by simp
    note ih = "1.IH" [OF True i1, folded b_def, folded d_def]
    have below: "d ! nat j = d0 ! nat j" if "0 \<le> j \<and> j < i" for j
    proof -
      have "d ! nat j = u8_set64 d0 i b ! nat j"
        using ih that by simp
      also have "\<dots> = d0 ! nat j"
        using that by (simp add: u8_set64_nth_other)
      finally show ?thesis .
    qed
    have here: "d ! nat i = ToUint8Clamp64 b" if "i < int (length d0)"
    proof -
      have "d ! nat i = u8_set64 d0 i b ! nat i"
        using ih "1.prems" by simp
      then show ?thesis
        using that "1.prems" by (simp add: u8_set64_def)
    qed
    have "d ! nat j = ToUint8Clamp64 (sdf_value64 rad cu (get64 outer j) (get64 inner j))"
      if "i \<le> j \<and> j < n \<and> j < int (length d0)" for j
    proof (cases "j = i")
      case True
      with here that show ?thesis by (simp add: b_def)
    next
      case False
      with that ih show ?thesis by simp
    qed
    with ih below show ?thesis
      unfolding r by simp
  qed
qed

lemma round_even_of_int [simp]: "round_even (of_int n) = n"
  by (simp add: round_even_def)

text \<open>An integer stored in a \<open>Uint8ClampedArray\<close> is clamped; the rounding of the store has
  nothing left to do after \<open>Math.round\<close>.\<close>

lemma ToUint8Clamp64_round:
  "ToUint8Clamp64 (Math_round64 (Fin t)) = word_of_int (max 0 (min 255 \<lfloor>t + 1 / 2\<rfloor>))"
proof -
  define n where "n = \<lfloor>t + 1 / 2\<rfloor>"
  consider "n \<le> 0" | "255 \<le> n" | "0 < n" "n < 255"
    by linarith
  then have "ToUint8Clamp64 (Fin (of_int n)) = word_of_int (max 0 (min 255 n))"
  proof cases
    case 1
    then show ?thesis by (simp add: ToUint8Clamp64_def)
  next
    case 2
    then show ?thesis by (simp add: ToUint8Clamp64_def)
  next
    case 3
    then show ?thesis by (simp add: ToUint8Clamp64_def)
  qed
  then show ?thesis
    by (simp add: n_def)
qed

lemma draw64_Inr:
  assumes "0 \<le> width m * height m"
  shows "\<exists>g this'. draw64 this img m = Inr (g, this')"
  using assms by (auto simp: draw64_def Let_def split: prod.splits)

lemma draw64_cases:
  assumes "draw64 this img m = Inr (g, this')" "glyphWidth m \<noteq> 0" "glyphHeight m \<noteq> 0"
  shows "\<exists>o0 i0 outer f1 v1 z1 inner f2 v2 z2.
           seed64 img (width m) (height m) (glyphWidth m) (glyphHeight m)
                (gridOuter64 this) (gridInner64 this) = (o0, i0) \<and>
           edt64 o0 (width m) (height m) (f64 this) (v64 this) (z64 this)
             = (outer, f1, v1, z1) \<and>
           edt64 i0 (width m) (height m) f1 v1 z1 = (inner, f2, v2, z2) \<and>
           0 \<le> width m * height m \<and>
           g = metrics.extend m (glyph.fields
                 (quantize64 (radius64 this) (cutoff64 this) outer inner (width m * height m) 0
                    (replicate (nat (width m * height m)) 0))) \<and>
           this' = this\<lparr>gridOuter64 := outer, gridInner64 := inner,
                        f64 := f2, v64 := v2, z64 := z2\<rparr>"
  using assms
  by (auto simp: draw64_def Let_def metrics.defs glyph.defs split: if_splits prod.splits)

text \<open>The byte of cell \<open>i\<close>, from the grids that \<open>draw\<close> leaves.\<close>

lemma draw64_byte:
  assumes run: "draw64 this img m = Inr (g, this')"
    and gl: "glyphWidth m \<noteq> 0" "glyphHeight m \<noteq> 0"
    and i: "0 \<le> i" "i < width m * height m"
  shows "length (data g) = nat (width m * height m)"
    and "data g ! nat i =
           ToUint8Clamp64 (sdf_value64 (radius64 this) (cutoff64 this)
             (get64 (gridOuter64 this') i) (get64 (gridInner64 this') i))"
proof -
  from draw64_cases [OF run gl] obtain outer inner f2 v2 z2 where
    g: "g = metrics.extend m (glyph.fields
              (quantize64 (radius64 this) (cutoff64 this) outer inner (width m * height m) 0
                 (replicate (nat (width m * height m)) 0)))" and
    t: "this' = this\<lparr>gridOuter64 := outer, gridInner64 := inner,
                      f64 := f2, v64 := v2, z64 := z2\<rparr>"
    by blast
  note qb = quantize64_bytes [OF order_refl, of "radius64 this" "cutoff64 this" outer inner
      "width m * height m" "replicate (nat (width m * height m)) 0"]
  have d: "data g = quantize64 (radius64 this) (cutoff64 this) outer inner (width m * height m) 0
                 (replicate (nat (width m * height m)) 0)"
      "gridOuter64 this' = outer" "gridInner64 this' = inner"
    using g t by (simp_all add: metrics.defs glyph.defs)
  show "length (data g) = nat (width m * height m)"
    using qb d by simp
  show "data g ! nat i =
           ToUint8Clamp64 (sdf_value64 (radius64 this) (cutoff64 this)
             (get64 (gridOuter64 this') i) (get64 (gridInner64 this') i))"
    using qb i d by simp
qed

lemma round64_0: "round64 0 = Fin 0"
  by (simp add: round64_def)

lemma round64_1: "round64 1 = Fin 1"
  by code_simp

lemma quantized_191:
  "ToUint8Clamp64 (Math_round64 (sub64 (Fin 255)
     (mul64 (Fin 255) (add64 (div64 (Fin 0) (Fin 8)) (Fin (1 / 4)))))) = 191"
  by code_simp

lemma sdf_value64_rounds: "sdf_value64 17 (1 / 2) (Fin 25) (Fin 0) = Fin 52"
proof -
  have "sqrt 25 = 5"
    by (rule real_sqrt_unique) simp_all
  moreover have "Math_round64 (sub64 (Fin 255) (mul64 (Fin 255)
          (add64 (div64 (sub64 (round64 5) (Fin 0)) (Fin 17)) (Fin (1 / 2))))) = Fin 52"
    by code_simp
  ultimately show ?thesis
    by (simp add: sdf_value64_def round64_0)
qed

section \<open>The seeds\<close>

lemma sar1_div2:
  assumes "- 2147483648 \<le> n" "n < 2147483648"
  shows "sar1 n = n div 2"
proof -
  have "sint (word_of_int n :: 32 word) = n"
    using assms by (simp add: sint_sbintrunc' signed_take_bit_int_eq_self)
  then show ?thesis
    by (simp add: sar1_def sint_signed_drop_bit_eq drop_bit_eq_div)
qed

lemma set64_length [simp]: "length (set64 a i x) = length a"
  by (simp add: set64_def)

lemma get64_beyond: "int (length a) \<le> j \<Longrightarrow> get64 a j = NaN64"
  by (simp add: get64_def)

lemma get64_set:
  "get64 (set64 a i x) j =
     (if j = i \<and> 0 \<le> i \<and> i < int (length a) then x else get64 a j)"
  by (auto simp: get64_def set64_def nth_list_update)

lemma fill64_length [simp]: "length (fill64 a x e) = length a"
  by (auto simp: fill64_def Let_def)

lemma fill64_get:
  assumes "0 \<le> e"
  shows "get64 (fill64 a x e) j =
         (if 0 \<le> j \<and> j < e \<and> j < int (length a) then x else get64 a j)"
proof -
  define n where "n = nat (min e (int (length a)))"
  have f: "fill64 a x e = replicate n x @ drop n a"
    using assms by (simp add: fill64_def n_def Let_def)
  have n: "n \<le> length a" "int n = min e (int (length a))"
    using assms by (simp_all add: n_def)
  show ?thesis
  proof (cases "0 \<le> j \<and> j < int (length a)")
    case False
    then show ?thesis
      using n by (auto simp: get64_def f)
  next
    case True
    then show ?thesis
      using n by (auto simp: get64_def f nth_append)
  qed
qed

lemma seed_row_cells:
  "seed_row64 img w gw off y x outer inner = (outer', inner') \<Longrightarrow>
   length outer' = length outer \<and> length inner' = length inner \<and>
   (\<forall>j. get64 outer' j =
      (if x \<le> j - (y + off) * w - off \<and> j - (y + off) * w - off < gw \<and>
          0 \<le> j \<and> j < int (length outer)
       then outer_cost64 (alpha64 img gw (j - (y + off) * w - off) y) else get64 outer j)) \<and>
   (\<forall>j. get64 inner' j =
      (if x \<le> j - (y + off) * w - off \<and> j - (y + off) * w - off < gw \<and>
          0 \<le> j \<and> j < int (length inner)
       then inner_cost64 (alpha64 img gw (j - (y + off) * w - off) y) else get64 inner j))"
proof (induction img w gw off y x outer inner rule: seed_row64.induct)
  case (1 img w gw off y x outer inner)
  show ?case
  proof (cases "x < gw")
    case False
    with "1.prems" have "outer' = outer" "inner' = inner"
      by (simp_all add: seed_row64.simps [of img w gw off y x outer inner])
    with False show ?thesis by auto
  next
    case True
    define j0 where "j0 = (y + off) * w + x + off"
    define a where "a = alpha64 img gw x y"
    have r: "seed_row64 img w gw off y (x + 1) (set64 outer j0 (outer_cost64 a))
               (set64 inner j0 (inner_cost64 a)) = (outer', inner')"
      using "1.prems" True by (subst (asm) seed_row64.simps) (simp add: Let_def j0_def a_def)
    note ih = "1.IH" [OF True j0_def a_def r]
    have x: "j - (y + off) * w - off = x \<longleftrightarrow> j = j0" for j
      by (auto simp: j0_def)
    have "get64 outer' j =
      (if x \<le> j - (y + off) * w - off \<and> j - (y + off) * w - off < gw \<and>
          0 \<le> j \<and> j < int (length outer)
       then outer_cost64 (alpha64 img gw (j - (y + off) * w - off) y) else get64 outer j)" for j
    proof (cases "j = j0")
      case True
      then have "j - (y + off) * w - off = x"
        using x by simp
      then show ?thesis
        using ih \<open>x < gw\<close> True by (simp add: get64_set a_def)
    next
      case False
      then have "j - (y + off) * w - off \<noteq> x"
        using x by simp
      then show ?thesis
        using ih False by (auto simp: get64_set)
    qed
    moreover have "get64 inner' j =
      (if x \<le> j - (y + off) * w - off \<and> j - (y + off) * w - off < gw \<and>
          0 \<le> j \<and> j < int (length inner)
       then inner_cost64 (alpha64 img gw (j - (y + off) * w - off) y) else get64 inner j)" for j
    proof (cases "j = j0")
      case True
      then have "j - (y + off) * w - off = x"
        using x by simp
      then show ?thesis
        using ih \<open>x < gw\<close> True by (simp add: get64_set a_def)
    next
      case False
      then have "j - (y + off) * w - off \<noteq> x"
        using x by simp
      then show ?thesis
        using ih False by (auto simp: get64_set)
    qed
    ultimately show ?thesis
      using ih by simp
  qed
qed

text \<open>Where the column \<open>X\<close> of a cell lies in the canvas and the glyph's rectangle fits in
  its width, the cell belongs to row \<open>y\<close> of the rectangle just if its row is \<open>y + off\<close>.\<close>

lemma in_glyph_row:
  fixes w :: int
  assumes "0 \<le> X" "X < w" "0 \<le> off" "off + gw \<le> w"
  shows "0 \<le> Y * w + X - (y + off) * w - off \<and> Y * w + X - (y + off) * w - off < gw
         \<longleftrightarrow> Y = y + off \<and> off \<le> X \<and> X < off + gw"
proof -
  define d where "d = Y - (y + off)"
  have e: "Y * w + X - (y + off) * w - off = d * w + (X - off)"
    by (simp add: d_def algebra_simps)
  consider "d = 0" | "1 \<le> d" | "d \<le> - 1"
    by linarith
  then show ?thesis
  proof cases
    case 1
    then show ?thesis
      unfolding e using 1 d_def by auto
  next
    case 2
    then have "1 * w \<le> d * w"
      using assms by (intro mult_right_mono) simp_all
    then have "w \<le> d * w"
      by simp
    then have "gw \<le> d * w + (X - off)"
      using assms by linarith
    then show ?thesis
      unfolding e using 2 d_def by auto
  next
    case 3
    then have "d * w \<le> (- 1) * w"
      using assms by (intro mult_right_mono) simp_all
    then have "d * w \<le> - w"
      by simp
    then have "d * w + (X - off) < 0"
      using assms by linarith
    then show ?thesis
      unfolding e using 3 d_def by auto
  qed
qed

lemma seed_rows64_cells:
  "seed_rows64 img w gw gh off y outer inner = (outer', inner') \<Longrightarrow>
   0 \<le> off \<Longrightarrow> off + gw \<le> w \<Longrightarrow>
   length outer' = length outer \<and> length inner' = length inner \<and>
   (\<forall>X Y. 0 \<le> X \<and> X < w \<longrightarrow>
      cell64 outer' w X Y =
        (if y + off \<le> Y \<and> Y < gh + off \<and> off \<le> X \<and> X < off + gw \<and>
            0 \<le> Y * w + X \<and> Y * w + X < int (length outer)
         then outer_cost64 (alpha64 img gw (X - off) (Y - off)) else cell64 outer w X Y) \<and>
      cell64 inner' w X Y =
        (if y + off \<le> Y \<and> Y < gh + off \<and> off \<le> X \<and> X < off + gw \<and>
            0 \<le> Y * w + X \<and> Y * w + X < int (length inner)
         then inner_cost64 (alpha64 img gw (X - off) (Y - off)) else cell64 inner w X Y))"
proof (induction img w gw gh off y outer inner rule: seed_rows64.induct)
  case (1 img w gw gh off y outer inner)
  show ?case
  proof (cases "y < gh")
    case False
    with "1.prems"(1) have "outer' = outer" "inner' = inner"
      by (simp_all add: seed_rows64.simps [of img w gw gh off y outer inner])
    with False show ?thesis by auto
  next
    case True
    from "1.prems"(1) True obtain o1 i1 where
      row: "seed_row64 img w gw off y 0 outer inner = (o1, i1)" and
      rest: "seed_rows64 img w gw gh off (y + 1) o1 i1 = (outer', inner')"
      by (subst (asm) seed_rows64.simps) (auto split: prod.splits)
    note r = seed_row_cells [OF row]
    note ih = "1.IH" [OF True row [symmetric] rest "1.prems"(2,3)]
    have len: "length o1 = length outer" "length i1 = length inner"
      using r by simp_all
    have "cell64 outer' w X Y =
        (if y + off \<le> Y \<and> Y < gh + off \<and> off \<le> X \<and> X < off + gw \<and>
            0 \<le> Y * w + X \<and> Y * w + X < int (length outer)
         then outer_cost64 (alpha64 img gw (X - off) (Y - off)) else cell64 outer w X Y) \<and>
      cell64 inner' w X Y =
        (if y + off \<le> Y \<and> Y < gh + off \<and> off \<le> X \<and> X < off + gw \<and>
            0 \<le> Y * w + X \<and> Y * w + X < int (length inner)
         then inner_cost64 (alpha64 img gw (X - off) (Y - off)) else cell64 inner w X Y)"
      if X: "0 \<le> X \<and> X < w" for X Y
    proof -
      have g: "0 \<le> Y * w + X - (y + off) * w - off \<and> Y * w + X - (y + off) * w - off < gw
               \<longleftrightarrow> Y = y + off \<and> off \<le> X \<and> X < off + gw"
        using in_glyph_row [of X w off gw Y y] X "1.prems"(2,3) by simp
      have x: "Y * w + X - (y + off) * w - off = X - off" if "Y = y + off"
        using that by simp
      have o: "cell64 o1 w X Y =
          (if Y = y + off \<and> off \<le> X \<and> X < off + gw \<and>
              0 \<le> Y * w + X \<and> Y * w + X < int (length outer)
           then outer_cost64 (alpha64 img gw (X - off) (Y - off)) else cell64 outer w X Y)"
        using r g x by (auto simp: cell64_def)
      have i: "cell64 i1 w X Y =
          (if Y = y + off \<and> off \<le> X \<and> X < off + gw \<and>
              0 \<le> Y * w + X \<and> Y * w + X < int (length inner)
           then inner_cost64 (alpha64 img gw (X - off) (Y - off)) else cell64 inner w X Y)"
        using r g x by (auto simp: cell64_def)
      show ?thesis
      proof (cases "Y = y + off")
        case True
        then show ?thesis
          using ih X o i len \<open>y < gh\<close> by simp
      next
        case False
        then show ?thesis
          using ih X o i len by auto
      qed
    qed
    then show ?thesis
      using ih len by simp
  qed
qed

text \<open>What the seeding leaves in every cell of the canvas: nothing where the grid ends
  before the cell.\<close>

lemma seed64_cells:
  assumes gw: "0 \<le> gw" "gw \<le> w" "w - gw < 2147483648"
    and run: "seed64 img w h gw gh outer0 inner0 = (outer, inner)"
    and xy: "0 \<le> x" "x < w" "0 \<le> y" "y < h"
  shows "cell64 outer w x y =
           (if int (length outer0) \<le> y * w + x then NaN64
            else if (w - gw) div 2 \<le> x \<and> x < (w - gw) div 2 + gw \<and>
                    (w - gw) div 2 \<le> y \<and> y < (w - gw) div 2 + gh
            then outer_cost64 (alpha64 img gw (x - (w - gw) div 2) (y - (w - gw) div 2))
            else Fin INF_val)"
    and "cell64 inner w x y =
           (if int (length inner0) \<le> y * w + x then NaN64
            else if (w - gw) div 2 \<le> x \<and> x < (w - gw) div 2 + gw \<and>
                    (w - gw) div 2 \<le> y \<and> y < (w - gw) div 2 + gh
            then inner_cost64 (alpha64 img gw (x - (w - gw) div 2) (y - (w - gw) div 2))
            else Fin 0)"
proof -
  define off where "off = (w - gw) div 2"
  have off: "sar1 (w - gw) = off" "0 \<le> off" "off + gw \<le> w"
    using gw by (simp_all add: off_def sar1_div2)
  have wh: "0 \<le> w * h"
    using xy by simp
  define o1 where "o1 = fill64 outer0 (Fin INF_val) (w * h)"
  define i1 where "i1 = fill64 inner0 (Fin 0) (w * h)"
  have rows: "seed_rows64 img w gw gh off 0 o1 i1 = (outer, inner)"
    using run by (simp add: seed64_def Let_def off o1_def i1_def)
  have idx: "0 \<le> y * w + x" "y * w + x < w * h"
    using cell_index_bound [OF xy] by simp_all
  have filled:
    "cell64 o1 w x y = (if int (length outer0) \<le> y * w + x then NaN64 else Fin INF_val)"
    "cell64 i1 w x y = (if int (length inner0) \<le> y * w + x then NaN64 else Fin 0)"
    using idx wh by (auto simp: cell64_def o1_def i1_def fill64_get get64_beyond)
  have len: "length o1 = length outer0" "length i1 = length inner0"
    by (simp_all add: o1_def i1_def)
  note c = seed_rows64_cells [OF rows off(2,3)]
  show "cell64 outer w x y =
           (if int (length outer0) \<le> y * w + x then NaN64
            else if (w - gw) div 2 \<le> x \<and> x < (w - gw) div 2 + gw \<and>
                    (w - gw) div 2 \<le> y \<and> y < (w - gw) div 2 + gh
            then outer_cost64 (alpha64 img gw (x - (w - gw) div 2) (y - (w - gw) div 2))
            else Fin INF_val)"
    using c xy(1,2) idx(1) len(1) filled(1) unfolding off_def [symmetric]
    by (auto simp: add.commute)
  show "cell64 inner w x y =
           (if int (length inner0) \<le> y * w + x then NaN64
            else if (w - gw) div 2 \<le> x \<and> x < (w - gw) div 2 + gw \<and>
                    (w - gw) div 2 \<le> y \<and> y < (w - gw) div 2 + gh
            then inner_cost64 (alpha64 img gw (x - (w - gw) div 2) (y - (w - gw) div 2))
            else Fin 0)"
    using c xy(1,2) idx(1) len(2) filled(2) unfolding off_def [symmetric]
    by (auto simp: add.commute)
qed

lemma nth_concat_replicate:
  "i < n * length xs \<Longrightarrow> concat (replicate n xs) ! i = xs ! (i mod length xs)"
proof (induction n arbitrary: i)
  case 0
  then show ?case by simp
next
  case (Suc n)
  show ?case
  proof (cases "i < length xs")
    case True
    then show ?thesis by (simp add: nth_append)
  next
    case False
    then have "i - length xs < n * length xs"
      using Suc.prems by simp
    from Suc.IH [OF this] False show ?thesis
      by (simp add: nth_append le_mod_geq)
  qed
qed

lemma length_concat_replicate: "length (concat (replicate n xs)) = n * length xs"
  by (induction n) simp_all

section \<open>The scratch buffers carry nothing from one pass to the next\<close>

lemma f64_get_beyond: "int (length a) \<le> j \<Longrightarrow> f64_get a j = NaN"
  by (simp add: f64_get_def)

lemma u16_get_beyond: "int (length a) \<le> j \<Longrightarrow> 0 \<le> j \<Longrightarrow> u16_get a j = Inr None"
  by (simp add: u16_get_def)

lemma same_f64_get: "same_f64 a b n \<Longrightarrow> j \<le> n \<Longrightarrow> f64_get a j = f64_get b j"
  by (cases "0 \<le> j") (auto simp: same_f64_def f64_get_def)

lemma same_u16_get: "same_u16 a b n \<Longrightarrow> j \<le> n \<Longrightarrow> u16_get a j = u16_get b j"
  by (cases "0 \<le> j") (auto simp: same_u16_def u16_get_def)

lemma same_f64_mono: "same_f64 a b n \<Longrightarrow> n' \<le> n \<Longrightarrow> same_f64 a b n'"
  by (simp add: same_f64_def)

lemma same_u16_mono: "same_u16 a b n \<Longrightarrow> n' \<le> n \<Longrightarrow> same_u16 a b n'"
  by (simp add: same_u16_def)

lemma same_sample:
  assumes "length f = length f'"
  shows "same_f64 (sample grid offset stride len f 0) (sample grid offset stride len f' 0) (len - 1)"
  unfolding same_f64_def
proof (intro conjI allI impI)
  show "length (sample grid offset stride len f 0) = length (sample grid offset stride len f' 0)"
    using assms by simp
  fix j
  assume j: "0 \<le> j \<and> j \<le> len - 1"
  show "f64_get (sample grid offset stride len f 0) j = f64_get (sample grid offset stride len f' 0) j"
  proof (cases "j < int (length f)")
    case True
    then show ?thesis
      using assms j by (simp add: sample_get)
  next
    case False
    then show ?thesis
      using assms by (simp add: sample_get f64_get_beyond)
  qed
qed

lemma same_f64_push:
  assumes "same_f64 z z' k" "i \<le> k + 1"
  shows "same_f64 (f64_set (f64_set z i s) (i + 1) t) (f64_set (f64_set z' i s) (i + 1) t) (i + 1)"
  unfolding same_f64_def
proof (intro conjI allI impI)
  have len: "length z = length z'"
    using assms(1) by (simp add: same_f64_def)
  then show "length (f64_set (f64_set z i s) (i + 1) t) = length (f64_set (f64_set z' i s) (i + 1) t)"
    by simp
  fix j
  assume j: "0 \<le> j \<and> j \<le> i + 1"
  have old: "f64_get z j = f64_get z' j" if "j < i"
    using same_f64_get [OF assms(1), of j] that assms(2) by simp
  show "f64_get (f64_set (f64_set z i s) (i + 1) t) j =
        f64_get (f64_set (f64_set z' i s) (i + 1) t) j"
  proof (cases "j < int (length z)")
    case True
    then show ?thesis
      using j len old by (auto simp: f64_get_set)
  next
    case False
    then show ?thesis
      using len by (simp add: f64_get_beyond)
  qed
qed

lemma same_u16_push:
  assumes "same_u16 v v' k" "i \<le> k + 1"
  shows "same_u16 (u16_set v i q) (u16_set v' i q) i"
  unfolding same_u16_def
proof (intro conjI allI impI)
  have len: "length v = length v'"
    using assms(1) by (simp add: same_u16_def)
  then show "length (u16_set v i q) = length (u16_set v' i q)"
    by simp
  fix j
  assume j: "0 \<le> j \<and> j \<le> i"
  have old: "u16_get v j = u16_get v' j" if "j < i"
    using same_u16_get [OF assms(1), of j] that assms(2) by simp
  show "u16_get (u16_set v i q) j = u16_get (u16_set v' i q) j"
  proof (cases "j < int (length v)")
    case True
    then show ?thesis
      using j len old by (auto simp: u16_get_set)
  next
    case False
    then show ?thesis
      using len j by (simp add: u16_get_beyond)
  qed
qed

lemma sentinel_push: "sentinel (f64_set z i (Num INF_val)) i"
proof (cases "0 \<le> i \<and> i < int (length z)")
  case True
  then show ?thesis
    by (simp add: sentinel_def)
next
  case False
  then have "f64_get (f64_set z i (Num INF_val)) i = NaN"
    by (auto simp: f64_get_def)
  then show ?thesis
    by (simp add: sentinel_def)
qed

lemma f64_at_same:
  assumes "same_f64 f f' n" "\<And>i. r = Some i \<Longrightarrow> i \<le> n"
  shows "f64_at f r = f64_at f' r"
  using assms by (cases r) (auto simp: f64_at_def same_f64_get)

lemma pop_same:
  "same_u16 v v' k \<Longrightarrow> same_f64 z z' k \<Longrightarrow> same_f64 f f' q \<Longrightarrow> below v k q \<Longrightarrow>
   pop f v z q k = pop f' v' z' q k"
proof (induction f v z q k rule: pop.induct)
  case (1 f v z q k)
  have v: "u16_get v' k = u16_get v k"
    using same_u16_get [OF "1.prems"(1), of k] by simp
  have z: "f64_get z' k = f64_get z k"
    using same_f64_get [OF "1.prems"(2), of k] by simp
  show ?case
  proof (cases "u16_get v k")
    case (Inl e)
    then show ?thesis
      using v by (simp add: pop.simps [of f v z q k] pop.simps [of f' v' z' q k])
  next
    case (Inr r)
    have k: "0 \<le> k"
      using Inr by (auto simp: u16_get_def split: if_splits)
    have "i \<le> q" if "r = Some i" for i
      using "1.prems"(4) Inr that k unfolding below_def by force
    then have "f64_at f r = f64_at f' r"
      using f64_at_same [OF "1.prems"(3)] by blast
    moreover have "f64_get f q = f64_get f' q"
      using same_f64_get [OF "1.prems"(3), of q] by simp
    ultimately have i: "intersect f' q r = intersect f q r"
      by (simp add: intersect_def)
    show ?thesis
    proof (cases "intersect f q r")
      case (Inl e)
      then show ?thesis
        using Inr v i by (simp add: pop.simps [of f v z q k] pop.simps [of f' v' z' q k])
    next
      case s: (Inr s)
      show ?thesis
      proof (cases "js_le s (f64_get z k) \<and> - 1 < k - 1")
        case False
        then show ?thesis
          using Inr s v i z by (auto simp: pop.simps [of f v z q k] pop.simps [of f' v' z' q k])
      next
        case True
        have "pop f v z q (k - 1) = pop f' v' z' q (k - 1)"
          using "1.IH" [OF Inr s] True "1.prems"
            same_u16_mono [of v v' k "k - 1"] same_f64_mono [of z z' k "k - 1"]
            below_mono [of v k q "k - 1" q]
          by simp
        then show ?thesis
          using Inr s v i z True by (simp add: pop.simps [of f v z q k] pop.simps [of f' v' z' q k])
      qed
    qed
  qed
qed

lemma envelope_same:
  "0 \<le> k \<Longrightarrow> 0 \<le> q \<Longrightarrow> same_u16 v v' k \<Longrightarrow> same_f64 z z' (k + 1) \<Longrightarrow>
   same_f64 f f' (len - 1) \<Longrightarrow> below v k q \<Longrightarrow> sentinel z (k + 1) \<Longrightarrow>
   envelope len f v z q k = Inr (v1, z1) \<Longrightarrow>
   \<exists>v1' z1' tp. envelope len f' v' z' q k = Inr (v1', z1') \<and> 0 \<le> tp \<and>
     same_u16 v1 v1' tp \<and> same_f64 z1 z1' (tp + 1) \<and> below v1 tp (max q len) \<and>
     sentinel z1 (tp + 1)"
proof (induction len f v z q k arbitrary: v' z' rule: envelope.induct)
  case (1 len f v z q k)
  show ?case
  proof (cases "q < len")
    case False
    then have "v1 = v" "z1 = z" "envelope len f' v' z' q k = Inr (v', z')"
      using "1.prems"(8) by (simp_all add: envelope.simps [of len _ _ _ q k])
    moreover have "max q len = q"
      using False by simp
    ultimately show ?thesis
      using "1.prems"(1,3,4,6,7) by auto
  next
    case True
    obtain k' s where p: "pop f v z q k = Inr (k', s)" "- 1 \<le> k'" "k' \<le> k"
      using pop_Inr [OF "1.prems"(1,6)] by blast
    have p': "pop f' v' z' q k = Inr (k', s)"
      using pop_same [OF "1.prems"(3) same_f64_mono [OF "1.prems"(4)]
          same_f64_mono [OF "1.prems"(5)] "1.prems"(6)] True p(1)
      by simp
    define v2 z2 v2' z2' where "v2 = u16_set v (k' + 1) q"
      and "z2 = f64_set (f64_set z (k' + 1) s) (k' + 1 + 1) (Num INF_val)"
      and "v2' = u16_set v' (k' + 1) q"
      and "z2' = f64_set (f64_set z' (k' + 1) s) (k' + 1 + 1) (Num INF_val)"
    have e: "envelope len f v2 z2 (q + 1) (k' + 1) = Inr (v1, z1)"
      using "1.prems"(8) True p(1) unfolding v2_def z2_def
      by (subst (asm) envelope.simps) (simp add: Let_def)
    have e': "envelope len f' v' z' q k = envelope len f' v2' z2' (q + 1) (k' + 1)"
      using True p' unfolding v2'_def z2'_def
      by (subst envelope.simps) (simp add: Let_def)
    have "\<exists>v1' z1' tp. envelope len f' v2' z2' (q + 1) (k' + 1) = Inr (v1', z1') \<and> 0 \<le> tp \<and>
      same_u16 v1 v1' tp \<and> same_f64 z1 z1' (tp + 1) \<and> below v1 tp (max (q + 1) len) \<and>
      sentinel z1 (tp + 1)"
    proof (rule "1.IH" [OF True p(1) refl refl refl refl refl, folded v2_def z2_def])
      show "0 \<le> k' + 1" "0 \<le> q + 1"
        using p(2) "1.prems"(2) by simp_all
      show "same_u16 v2 v2' (k' + 1)"
        unfolding v2_def v2'_def using same_u16_push [OF "1.prems"(3)] p(3) by simp
      show "same_f64 z2 z2' (k' + 1 + 1)"
        unfolding z2_def z2'_def
        using same_f64_push [OF "1.prems"(4), of "k' + 1"] p(3) by simp
      show "same_f64 f f' (len - 1)"
        by (rule "1.prems"(5))
      show "below v2 (k' + 1) (q + 1)"
        unfolding v2_def using below_push [OF "1.prems"(6) p(3) "1.prems"(2)] .
      show "sentinel z2 (k' + 1 + 1)"
        unfolding z2_def by (rule sentinel_push)
      show "envelope len f v2 z2 (q + 1) (k' + 1) = Inr (v1, z1)"
        by (rule e)
    qed
    moreover have "max (q + 1) len = max q len"
      using True by simp
    ultimately show ?thesis
      using e' by simp
  qed
qed

lemma cursor_same:
  "same_f64 z z' (tp + 1) \<Longrightarrow> \<not> js_lt (f64_get z (tp + 1)) (js_int q) \<Longrightarrow> k \<le> tp \<Longrightarrow>
   cursor z q k = cursor z' q k \<and> cursor z q k \<le> tp"
proof (induction z q k rule: cursor.induct)
  case (1 z q k)
  have z: "f64_get z' (k + 1) = f64_get z (k + 1)"
    using same_f64_get [OF "1.prems"(1), of "k + 1"] "1.prems"(3) by simp
  show ?case
  proof (cases "js_lt (f64_get z (k + 1)) (js_int q)")
    case False
    then show ?thesis
      using z "1.prems"(3) by (simp add: cursor.simps [of z q k] cursor.simps [of z' q k])
  next
    case True
    then have "k \<noteq> tp"
      using "1.prems"(2) by auto
    then have "k + 1 \<le> tp"
      using "1.prems"(3) by simp
    then show ?thesis
      using "1.IH" [OF True "1.prems"(1,2)] True z
      by (simp add: cursor.simps [of z q k] cursor.simps [of z' q k])
  qed
qed

lemma sentinel_stops:
  assumes "sentinel z j" "real_of_int q \<le> INF_val"
  shows "\<not> js_lt (f64_get z j) (js_int q)"
  using assms by (auto simp: sentinel_def js_int_def)

lemma scan_same:
  "same_u16 v v' tp \<Longrightarrow> same_f64 z z' (tp + 1) \<Longrightarrow> same_f64 f f' (len - 1) \<Longrightarrow>
   below v tp (max 1 len) \<Longrightarrow> sentinel z (tp + 1) \<Longrightarrow> real_of_int len \<le> INF_val \<Longrightarrow>
   0 \<le> q \<Longrightarrow> 0 \<le> k \<Longrightarrow> k \<le> tp \<Longrightarrow>
   scan offset stride len f v z grid q k = scan offset stride len f' v' z' grid q k"
proof (induction offset stride len f v z grid q k rule: scan.induct)
  case (1 offset stride len f v z grid q k)
  show ?case
  proof (cases "q < len")
    case False
    then show ?thesis
      by (simp add: scan.simps [of offset stride len _ _ _ grid q k])
  next
    case True
    have "real_of_int q \<le> INF_val"
      using True "1.prems"(6) by simp
    then have ns: "\<not> js_lt (f64_get z (tp + 1)) (js_int q)"
      by (rule sentinel_stops [OF "1.prems"(5)])
    from cursor_same [OF "1.prems"(2) ns "1.prems"(9)]
    have c: "cursor z q k = cursor z' q k" "cursor z q k \<le> tp"
      by blast+
    have c0: "0 \<le> cursor z q k"
      using cursor_ge [of k z q] "1.prems"(8) by simp
    have v: "u16_get v' (cursor z q k) = u16_get v (cursor z q k)"
      using same_u16_get [OF "1.prems"(1) c(2)] by simp
    obtain r where r: "u16_get v (cursor z q k) = Inr r"
      using u16_get_nonneg [OF c0] by blast
    have len1: "max 1 len = len"
      using True "1.prems"(7) by simp
    have "i \<le> len - 1" if "r = Some i" for i
      using "1.prems"(4) r that c0 c(2) unfolding below_def len1 by force
    then have "f64_at f r = f64_at f' r"
      using f64_at_same [OF "1.prems"(3)] by blast
    then have p: "parabola f' q r = parabola f q r"
      by (simp add: parabola_def)
    have "scan offset stride len f v z
            (f64_set grid (offset + q * stride) (parabola f q r)) (q + 1) (cursor z q k) =
          scan offset stride len f' v' z'
            (f64_set grid (offset + q * stride) (parabola f q r)) (q + 1) (cursor z q k)"
      using "1.IH" [OF True refl r "1.prems"(1-6)] "1.prems"(7) c0 c(2) by simp
    then show ?thesis
      using True r v p c(1)
      by (simp add: scan.simps [of offset stride len f v z grid q k]
          scan.simps [of offset stride len f' v' z' grid q k] Let_def)
  qed
qed

lemma edt1d_same:
  assumes len: "length f' = length f" "length v' = length v" "length z' = length z"
    and inf: "real_of_int len \<le> INF_val"
    and run: "edt1d grid offset stride len f v z = Inr (g, f1, v1, z1)"
  shows "\<exists>f2 v2 z2. edt1d grid offset stride len f' v' z' = Inr (g, f2, v2, z2)"
proof -
  note parts = edt1d_cases [OF run]
  define fs where "fs = sample grid offset stride len f' 0"
  have sf: "same_f64 f1 fs (len - 1)"
    unfolding parts(1) fs_def using same_sample len(1) by simp
  have "same_u16 v' v (- 1)" "same_f64 z' z (- 1)"
    using len(2,3) by (auto simp: same_u16_def same_f64_def)
  then have "same_u16 (u16_set v' 0 0) (u16_set v 0 0) 0"
    "same_f64 (f64_set (f64_set z' 0 (Num (- INF_val))) (0 + 1) (Num INF_val))
       (f64_set (f64_set z 0 (Num (- INF_val))) (0 + 1) (Num INF_val)) (0 + 1)"
    using same_u16_push [of v' v "- 1" 0 0] same_f64_push [of z' z "- 1" 0] by simp_all
  then have sv: "same_u16 (u16_set v 0 0) (u16_set v' 0 0) 0"
    and sz: "same_f64 (f64_set (f64_set z 0 (Num (- INF_val))) 1 (Num INF_val))
              (f64_set (f64_set z' 0 (Num (- INF_val))) 1 (Num INF_val)) (0 + 1)"
    by (simp_all add: same_u16_def same_f64_def)
  have se: "sentinel (f64_set (f64_set z 0 (Num (- INF_val))) 1 (Num INF_val)) (0 + 1)"
    using sentinel_push [of "f64_set z 0 (Num (- INF_val))" 1] by simp
  from envelope_same [OF order_refl zero_le_one sv sz sf below_init se parts(2)]
  obtain v2 z2 tp where
    e: "envelope len fs (u16_set v' 0 0)
          (f64_set (f64_set z' 0 (Num (- INF_val))) 1 (Num INF_val)) 1 0 = Inr (v2, z2)" and
    tp: "0 \<le> tp" "same_u16 v1 v2 tp" "same_f64 z1 z2 (tp + 1)" "below v1 tp (max 1 len)"
      "sentinel z1 (tp + 1)"
    by blast
  have "scan offset stride len fs v2 z2 grid 0 0 = Inr g"
    using scan_same [OF tp(2,3) sf tp(4,5) inf order_refl order_refl tp(1)] parts(3) by simp
  then show ?thesis
    using e by (simp add: edt1d_def Let_def fs_def)
qed


lemma edt_columns_same:
  "edt_columns w h x grid f v z = Inr (g, f1, v1, z1) \<Longrightarrow>
   length f' = length f \<Longrightarrow> length v' = length v \<Longrightarrow> length z' = length z \<Longrightarrow>
   real_of_int h \<le> INF_val \<Longrightarrow>
   \<exists>f2 v2 z2. edt_columns w h x grid f' v' z' = Inr (g, f2, v2, z2) \<and>
     length f2 = length f1 \<and> length v2 = length v1 \<and> length z2 = length z1"
proof (induction w h x grid f v z arbitrary: f' v' z' rule: edt_columns.induct)
  case (1 w h x grid f v z)
  show ?case
  proof (cases "x < w")
    case False
    then have a: "g = grid" "f1 = f" "v1 = v" "z1 = z"
      using "1.prems"(1) by (simp_all add: edt_columns.simps [of w h x grid f v z])
    have "edt_columns w h x grid f' v' z' = Inr (grid, f', v', z')"
      using False by (subst edt_columns.simps) simp
    then show ?thesis
      using a "1.prems"(2,3,4) by simp
  next
    case True
    from "1.prems"(1) True obtain d fa va za where
      e: "edt1d grid x w h f v z = Inr (d, fa, va, za)" and
      r: "edt_columns w h (x + 1) d fa va za = Inr (g, f1, v1, z1)"
      by (subst (asm) edt_columns.simps) (auto split: sum.splits)
    obtain fb vb zb where e': "edt1d grid x w h f' v' z' = Inr (d, fb, vb, zb)"
      using edt1d_same [OF "1.prems"(2,3,4,5) e] by blast
    have len: "length fb = length fa" "length vb = length va" "length zb = length za"
      using edt1d_frame(2,3,4) [OF e] edt1d_frame(2,3,4) [OF e'] "1.prems"(2,3,4) by simp_all
    show ?thesis
      using "1.IH" [OF True e refl refl refl r len "1.prems"(5)] True e'
      by (simp add: edt_columns.simps [of w h x grid f' v' z'])
  qed
qed

lemma edt_rows_same:
  "edt_rows w h y grid f v z = Inr (g, f1, v1, z1) \<Longrightarrow>
   length f' = length f \<Longrightarrow> length v' = length v \<Longrightarrow> length z' = length z \<Longrightarrow>
   real_of_int w \<le> INF_val \<Longrightarrow>
   \<exists>f2 v2 z2. edt_rows w h y grid f' v' z' = Inr (g, f2, v2, z2) \<and>
     length f2 = length f1 \<and> length v2 = length v1 \<and> length z2 = length z1"
proof (induction w h y grid f v z arbitrary: f' v' z' rule: edt_rows.induct)
  case (1 w h y grid f v z)
  show ?case
  proof (cases "y < h")
    case False
    then have a: "g = grid" "f1 = f" "v1 = v" "z1 = z"
      using "1.prems"(1) by (simp_all add: edt_rows.simps [of w h y grid f v z])
    have "edt_rows w h y grid f' v' z' = Inr (grid, f', v', z')"
      using False by (subst edt_rows.simps) simp
    then show ?thesis
      using a "1.prems"(2,3,4) by simp
  next
    case True
    from "1.prems"(1) True obtain d fa va za where
      e: "edt1d grid (y * w) 1 w f v z = Inr (d, fa, va, za)" and
      r: "edt_rows w h (y + 1) d fa va za = Inr (g, f1, v1, z1)"
      by (subst (asm) edt_rows.simps) (auto split: sum.splits)
    obtain fb vb zb where e': "edt1d grid (y * w) 1 w f' v' z' = Inr (d, fb, vb, zb)"
      using edt1d_same [OF "1.prems"(2,3,4,5) e] by blast
    have len: "length fb = length fa" "length vb = length va" "length zb = length za"
      using edt1d_frame(2,3,4) [OF e] edt1d_frame(2,3,4) [OF e'] "1.prems"(2,3,4) by simp_all
    show ?thesis
      using "1.IH" [OF True e refl refl refl r len "1.prems"(5)] True e'
      by (simp add: edt_rows.simps [of w h y grid f' v' z'])
  qed
qed

lemma edt_same:
  assumes "edt grid w h f v z = Inr (g, f1, v1, z1)"
    and "length f' = length f" "length v' = length v" "length z' = length z"
    and "real_of_int w \<le> INF_val" "real_of_int h \<le> INF_val"
  shows "\<exists>f2 v2 z2. edt grid w h f' v' z' = Inr (g, f2, v2, z2) \<and>
     length f2 = length f1 \<and> length v2 = length v1 \<and> length z2 = length z1"
proof -
  from edt_cases [OF assms(1)] obtain ga fa va za where
    c: "edt_columns w h 0 grid f v z = Inr (ga, fa, va, za)" and
    r: "edt_rows w h 0 ga fa va za = Inr (g, f1, v1, z1)"
    by blast
  from edt_columns_same [OF c assms(2,3,4,6)] obtain fb vb zb where
    c': "edt_columns w h 0 grid f' v' z' = Inr (ga, fb, vb, zb)" and
    len: "length fb = length fa" "length vb = length va" "length zb = length za"
    by blast
  from edt_rows_same [OF r len assms(5)] show ?thesis
    using c' by (simp add: edt_def)
qed

text \<open>What of a call of \<open>draw\<close> is to be the same: the glyph and the two grids.\<close>

lemma draw_same:
  assumes "length f' = length f" "length v' = length v" "length z' = length z"
    and "real_of_int (width m) \<le> INF_val" "real_of_int (height m) \<le> INF_val"
  shows "map_sum id (\<lambda>(g, t). (g, gridOuter t, gridInner t))
           (draw (this\<lparr>this_f := f, this_v := v, this_z := z\<rparr>) img m) =
         map_sum id (\<lambda>(g, t). (g, gridOuter t, gridInner t))
           (draw (this\<lparr>this_f := f', this_v := v', this_z := z'\<rparr>) img m)"
proof -
  obtain o0 i0 where s: "seed img (width m) (height m) (glyphWidth m) (glyphHeight m)
      (gridOuter this) (gridInner this) = (o0, i0)"
    by fastforce
  obtain outer f1 v1 z1 where e1: "edt o0 (width m) (height m) f v z = Inr (outer, f1, v1, z1)"
    using edt_Inr by blast
  from edt_same [OF e1 assms] obtain f1' v1' z1' where
    e1': "edt o0 (width m) (height m) f' v' z' = Inr (outer, f1', v1', z1')" and
    len: "length f1' = length f1" "length v1' = length v1" "length z1' = length z1"
    by blast
  obtain inner f2 v2 z2 where e2: "edt i0 (width m) (height m) f1 v1 z1 = Inr (inner, f2, v2, z2)"
    using edt_Inr by blast
  from edt_same [OF e2 len assms(4,5)] obtain f2' v2' z2' where
    e2': "edt i0 (width m) (height m) f1' v1' z1' = Inr (inner, f2', v2', z2')"
    by blast
  show ?thesis
    using s e1 e1' e2 e2' by (simp add: draw_def Let_def split: sum.splits)
qed

section \<open>The claims\<close>

text \<open>
  Claim C7.  For a line of any length, with any contents (a single sample, all costs the
  sentinel, all costs zero, also \<open>NaN\<close>) and any scratch buffers, \<open>edt1d\<close> returns: it
  terminates, no intersection divides by \<open>q - r = 0\<close>, the popping loop leaves the stack at
  its last parabola without reading \<open>v\<close> below index 0, and neither does the cursor of the
  output pass.
\<close>

theorem edt1d_returns:
  "\<exists>grid' f' v' z'. edt1d grid offset stride len f v z = Inr (grid', f', v', z')"
  by (rule edt1d_Inr)

text \<open>
  Claim C1.  A \<open>w\<close> by \<open>h\<close> grid holds 0 in the cell \<open>(x0, y0)\<close> and the sentinel \<open>1e20\<close> in
  every other cell.  Then \<open>edt\<close> returns, and cell \<open>(x, y)\<close> of its grid is
  \<open>(x - x0)\<^sup>2 + (y - y0)\<^sup>2\<close>.  The scratch buffers hold a line of the grid, as the
  constructor allocates them, and the indices fit the 16 bits of \<open>v\<close>; numbers are exact.
\<close>

theorem edt_single_zero:
  assumes "fits w h f v z"
    and "0 \<le> x0" "x0 < w" "0 \<le> y0" "y0 < h"
    and "\<forall>a b. 0 \<le> a \<and> a < w \<and> 0 \<le> b \<and> b < h \<longrightarrow>
           cell grid w a b = (if a = x0 \<and> b = y0 then Num 0 else Num INF_val)"
  shows "\<exists>g f' v' z'. edt grid w h f v z = Inr (g, f', v', z') \<and>
           (\<forall>x y. 0 \<le> x \<and> x < w \<and> 0 \<le> y \<and> y < h \<longrightarrow>
              cell g w x y = Num (real_of_int ((x - x0) * (x - x0) + (y - y0) * (y - y0))))"
proof -
  obtain g f' v' z' where run: "edt grid w h f v z = Inr (g, f', v', z')"
    using edt_Inr by blast
  define c where "c = (\<lambda>a b. if a = x0 \<and> b = y0 then 0 else INF_val)"
  have cells: "\<forall>a b. 0 \<le> a \<and> a < w \<and> 0 \<le> b \<and> b < h \<longrightarrow> cell grid w a b = Num (c a b)"
    using assms(6) by (simp add: c_def)
  have wh: "w \<le> 65536" "h \<le> 65536"
    using assms(1) by (simp_all add: fits_def)
  have "cell g w x y = Num (real_of_int ((x - x0) * (x - x0) + (y - y0) * (y - y0)))"
    if "0 \<le> x \<and> x < w \<and> 0 \<le> y \<and> y < h" for x y
    using edt_dt2(5) [OF run assms(1) cells, of x y] that
      dt2_single_zero [OF assms(2-5) _ _ _ _ wh, of x y]
    by (simp add: c_def)
  with run show ?thesis by blast
qed

theorem edt_single_zero_witness:
  "\<exists>g f' v' z'.
     edt [Num INF_val, Num INF_val, Num INF_val, Num INF_val, Num 0, Num INF_val] 3 2
         [NaN, NaN, NaN] [0, 0, 0] [NaN, NaN, NaN, NaN] = Inr (g, f', v', z') \<and>
     cell g 3 0 0 = Num 2 \<and> cell g 3 1 0 = Num 1 \<and> cell g 3 2 0 = Num 2 \<and>
     cell g 3 0 1 = Num 1 \<and> cell g 3 1 1 = Num 0 \<and> cell g 3 2 1 = Num 1"
proof -
  let ?grid = "[Num INF_val, Num INF_val, Num INF_val, Num INF_val, Num 0, Num INF_val]"
  have fits: "fits 3 2 [NaN, NaN, NaN] [0, 0, 0] [NaN, NaN, NaN, NaN]"
    by (simp add: fits_def)
  have cells: "\<forall>a b. 0 \<le> a \<and> a < 3 \<and> 0 \<le> b \<and> b < 2 \<longrightarrow>
      cell ?grid 3 a b = (if a = 1 \<and> b = 1 then Num 0 else Num INF_val)"
  proof (intro allI impI)
    fix a b :: int
    assume "0 \<le> a \<and> a < 3 \<and> 0 \<le> b \<and> b < 2"
    then have "a \<in> {0, 1, 2}" "b \<in> {0, 1}"
      by auto
    then show "cell ?grid 3 a b = (if a = 1 \<and> b = 1 then Num 0 else Num INF_val)"
      by (auto simp: cell_def f64_get_def)
  qed
  from edt_single_zero [OF fits _ _ _ _ cells]
  obtain g f' v' z' where
    run: "edt ?grid 3 2 [NaN, NaN, NaN] [0, 0, 0] [NaN, NaN, NaN, NaN] = Inr (g, f', v', z')" and
    r: "\<And>x y. 0 \<le> x \<and> x < 3 \<and> 0 \<le> y \<and> y < 2 \<Longrightarrow>
          cell g 3 x y = Num (real_of_int ((x - 1) * (x - 1) + (y - 1) * (y - 1)))"
    by auto
  have "cell g 3 0 0 = Num 2" "cell g 3 1 0 = Num 1" "cell g 3 2 0 = Num 2"
       "cell g 3 0 1 = Num 1" "cell g 3 1 1 = Num 0" "cell g 3 2 1 = Num 1"
    using r [of 0 0] r [of 1 0] r [of 2 0] r [of 0 1] r [of 1 1] r [of 2 1] by simp_all
  with run show ?thesis by blast
qed

text \<open>
  Claim C10.  A call of \<open>edt1d\<close> returns a grid of the same length in which only the cells
  \<open>offset + i * stride\<close> with \<open>0 \<le> i < len\<close> can differ from the grid it was given.  So the
  pass of \<open>edt\<close> over row \<open>y\<close> leaves the cells of every other row as they were, and the
  pass over column \<open>x\<close> leaves the cells of every other column as they were.
\<close>

theorem edt1d_writes_its_line_only:
  "(\<exists>g f' v' z'. edt1d grid offset stride len f v z = Inr (g, f', v', z') \<and>
      length g = length grid \<and>
      (\<forall>j. (\<forall>i. 0 \<le> i \<and> i < len \<longrightarrow> j \<noteq> offset + i * stride) \<longrightarrow>
           f64_get g j = f64_get grid j)) \<and>
   (\<exists>g f' v' z'. edt1d grid (y * w) 1 w f v z = Inr (g, f', v', z') \<and>
      (\<forall>x' y'. 0 \<le> x' \<and> x' < w \<and> y' \<noteq> y \<longrightarrow> cell g w x' y' = cell grid w x' y')) \<and>
   (0 \<le> x \<and> x < w \<longrightarrow>
      (\<exists>g f' v' z'. edt1d grid x w h f v z = Inr (g, f', v', z') \<and>
         (\<forall>x' y'. 0 \<le> x' \<and> x' < w \<and> x' \<noteq> x \<longrightarrow> cell g w x' y' = cell grid w x' y')))"
proof (intro conjI impI)
  obtain g f' v' z' where run: "edt1d grid offset stride len f v z = Inr (g, f', v', z')"
    using edt1d_Inr by blast
  show "\<exists>g f' v' z'. edt1d grid offset stride len f v z = Inr (g, f', v', z') \<and>
      length g = length grid \<and>
      (\<forall>j. (\<forall>i. 0 \<le> i \<and> i < len \<longrightarrow> j \<noteq> offset + i * stride) \<longrightarrow>
           f64_get g j = f64_get grid j)"
    using run edt1d_frame(1,5) [OF run] by blast
next
  obtain g f' v' z' where run: "edt1d grid (y * w) 1 w f v z = Inr (g, f', v', z')"
    using edt1d_Inr by blast
  have "cell g w x' y' = cell grid w x' y'" if "0 \<le> x' \<and> x' < w \<and> y' \<noteq> y" for x' y'
    unfolding cell_def
  proof (rule edt1d_frame(5) [OF run], intro allI impI)
    fix i
    assume "0 \<le> i \<and> i < w"
    then show "y' * w + x' \<noteq> y * w + i * 1"
      using row_other [of x' w y' y i] that by simp
  qed
  with run show "\<exists>g f' v' z'. edt1d grid (y * w) 1 w f v z = Inr (g, f', v', z') \<and>
      (\<forall>x' y'. 0 \<le> x' \<and> x' < w \<and> y' \<noteq> y \<longrightarrow> cell g w x' y' = cell grid w x' y')"
    by blast
next
  assume x: "0 \<le> x \<and> x < w"
  obtain g f' v' z' where run: "edt1d grid x w h f v z = Inr (g, f', v', z')"
    using edt1d_Inr by blast
  have "cell g w x' y' = cell grid w x' y'" if "0 \<le> x' \<and> x' < w \<and> x' \<noteq> x" for x' y'
    unfolding cell_def
  proof (rule edt1d_frame(5) [OF run], intro allI impI)
    fix i
    show "y' * w + x' \<noteq> x + i * w"
      using column_other [of x' w x y' i] that x by simp
  qed
  with run show "\<exists>g f' v' z'. edt1d grid x w h f v z = Inr (g, f', v', z') \<and>
      (\<forall>x' y'. 0 \<le> x' \<and> x' < w \<and> x' \<noteq> x \<longrightarrow> cell g w x' y' = cell grid w x' y')"
    by blast
qed

theorem edt1d_writes_its_line_only_witness:
  "\<exists>g f' v' z'.
     edt1d [Num 5, Num 0, Num 7, Num 9] 0 1 2 [NaN, NaN] [0, 0] [NaN, NaN, NaN] = Inr (g, f', v', z') \<and>
     length g = 4 \<and> f64_get g 2 = Num 7 \<and> f64_get g 3 = Num 9"
proof -
  let ?grid = "[Num 5, Num 0, Num 7, Num 9]"
  from edt1d_writes_its_line_only [of ?grid 0 1 2 "[NaN, NaN]" "[0, 0]" "[NaN, NaN, NaN]"]
  obtain g f' v' z' where
    run: "edt1d ?grid 0 1 2 [NaN, NaN] [0, 0] [NaN, NaN, NaN] = Inr (g, f', v', z')" and
    len: "length g = length ?grid" and
    fr: "\<And>j. (\<forall>i. 0 \<le> i \<and> i < 2 \<longrightarrow> j \<noteq> 0 + i * 1) \<Longrightarrow> f64_get g j = f64_get ?grid j"
    by blast
  have "f64_get g 2 = Num 7" "f64_get g 3 = Num 9"
    using fr [of 2] fr [of 3] by (simp_all add: f64_get_def)
  with run len show ?thesis by simp
qed

text \<open>
  Claim C5, as the specification states it, fails on the program: on the grid
  \<open>0, 1e20, 1e20\<close> of width 3 and height 1 the first run of \<open>edt\<close> gives \<open>0, 1, 4\<close>, all
  finite, and the second run, on this grid and the scratch buffers as the first run left
  them, gives \<open>0, 1, 2\<close>: the last cell falls from 4 to 2.
\<close>

theorem edt64_rerun_not_larger:
  "edt64 [Fin 0, Fin INF_val, Fin INF_val] 3 1
         [NaN64, NaN64, NaN64] [0, 0, 0] [NaN64, NaN64, NaN64, NaN64] =
     ([Fin 0, Fin 1, Fin 4],
      [Fin 0, Fin INF_val, Fin INF_val], [0, 2, 0],
      [Fin (- INF_val), Fin 25000000000000000000, Fin INF_val, NaN64]) \<and>
   edt64 [Fin 0, Fin 1, Fin 4] 3 1
         [Fin 0, Fin INF_val, Fin INF_val] [0, 2, 0]
         [Fin (- INF_val), Fin 25000000000000000000, Fin INF_val, NaN64] =
     ([Fin 0, Fin 1, Fin 2],
      [Fin 0, Fin 1, Fin 4], [0, 1, 2], [Fin (- INF_val), Fin 1, Fin 3, Fin INF_val]) \<and>
   \<not> le64 (cell64 [Fin 0, Fin 1, Fin 4] 3 2 0) (cell64 [Fin 0, Fin 1, Fin 2] 3 2 0)"
  by code_simp

text \<open>
  Claim C5, amended.  On every grid \<open>edt\<close> returns, and a second run of \<open>edt\<close> on the grid
  and the scratch buffers that the first run left returns too, each with a grid of the
  length it was given: no intersection divides by zero and no read goes below the stack in
  either run.
\<close>

theorem edt_rerun_returns:
  "\<exists>g f1 v1 z1 g2 f2 v2 z2.
     edt grid w h f v z = Inr (g, f1, v1, z1) \<and>
     edt g w h f1 v1 z1 = Inr (g2, f2, v2, z2) \<and>
     length g = length grid \<and> length g2 = length grid"
proof -
  obtain g f1 v1 z1 where run1: "edt grid w h f v z = Inr (g, f1, v1, z1)"
    using edt_Inr by blast
  obtain g2 f2 v2 z2 where run2: "edt g w h f1 v1 z1 = Inr (g2, f2, v2, z2)"
    using edt_Inr by blast
  show ?thesis
    using run1 run2 edt_length [OF run1] edt_length [OF run2] by simp
qed




text \<open>
  Claim C4, as the specification states it, fails: \<open>edt\<close> is not the row passes followed by
  the column passes.  On the grid \<open>0, 1e20\<close> of width 2 and height 1 the two orders end with
  different contents of the scratch line \<open>f\<close>, which holds the samples of the last pass.
\<close>

theorem edt_not_rows_first:
  "edt [Num 0, Num INF_val] 2 1 [NaN, NaN] [0, 0] [NaN, NaN, NaN]
     \<noteq> rows_then_columns [Num 0, Num INF_val] 2 1 [NaN, NaN] [0, 0] [NaN, NaN, NaN]"
  by code_simp

text \<open>
  Claim C4, amended.  \<open>edt\<close> applies \<open>edt1d\<close> first once per column, in the order
  \<open>x = 0, ..., w - 1\<close> with offset \<open>x\<close>, stride \<open>w\<close> and length \<open>h\<close>, and then once per row, in
  the order \<open>y = 0, ..., h - 1\<close> with offset \<open>y * w\<close>, stride 1 and length \<open>w\<close>; every pass works
  on the grid and the scratch buffers that the pass before it left.
\<close>

theorem edt_columns_then_rows:
  "edt grid w h f v z = passes (column_passes w h @ row_passes w h) grid f v z"
  by (simp add: edt_def passes_append edt_columns_passes edt_rows_passes
      column_passes_def row_passes_def split: sum.splits)

text \<open>
  Claim C3.  \<open>draw\<close> has returned for a glyph that is not empty.  Then byte \<open>i\<close> of the
  output, for every cell \<open>i\<close> of the canvas, is the store into the \<open>Uint8ClampedArray\<close> of
  \<open>Math.round(255 - 255 * (d / radius + cutoff))\<close> with
  \<open>d = Math.sqrt(gridOuter[i]) - Math.sqrt(gridInner[i])\<close>, every operation in floating
  point and the grids read after both transforms.  The store clamps: a finite value \<open>x\<close>
  under \<open>Math.round\<close> gives \<open>\<lfloor>x + 1/2\<rfloor>\<close> cut to 0 and 255, \<open>+Infinity\<close> gives 255,
  \<open>-Infinity\<close> and \<open>NaN\<close> give 0.  With \<open>radius = 8\<close> and \<open>cutoff = 0.25\<close>, a cell where
  \<open>d = 0\<close> gets the byte 191.
\<close>

theorem draw64_quantizes:
  assumes "draw64 this img m = Inr (g, this')"
    and "glyphWidth m \<noteq> 0" "glyphHeight m \<noteq> 0"
    and "0 \<le> i" "i < width m * height m"
  shows "length (data g) = nat (width m * height m) \<and>
         data g ! nat i =
           ToUint8Clamp64 (Math_round64 (sub64 (Fin 255) (mul64 (Fin 255)
             (add64 (div64 (sub64 (Math_sqrt64 (get64 (gridOuter64 this') i))
                                  (Math_sqrt64 (get64 (gridInner64 this') i)))
                           (Fin (radius64 this)))
                    (Fin (cutoff64 this)))))) \<and>
         (\<forall>x. ToUint8Clamp64 (Math_round64 (Fin x)) =
                word_of_int (max 0 (min 255 \<lfloor>x + 1 / 2\<rfloor>))) \<and>
         ToUint8Clamp64 (Math_round64 Inf64) = 255 \<and>
         ToUint8Clamp64 (Math_round64 NegInf64) = 0 \<and>
         ToUint8Clamp64 (Math_round64 NaN64) = 0 \<and>
         (\<forall>outer inner. sub64 (Math_sqrt64 outer) (Math_sqrt64 inner) = Fin 0 \<longrightarrow>
            ToUint8Clamp64 (sdf_value64 8 (1 / 4) outer inner) = 191)"
proof -
  note b = draw64_byte [OF assms]
  have "ToUint8Clamp64 (sdf_value64 8 (1 / 4) outer inner) = 191"
    if "sub64 (Math_sqrt64 outer) (Math_sqrt64 inner) = Fin 0" for outer inner
    using that quantized_191 by (simp add: sdf_value64_def)
  then show ?thesis
    using b by (simp add: sdf_value64_def ToUint8Clamp64_round ToUint8Clamp64_def)
qed

theorem draw64_quantizes_witness:
  "\<exists>g this'.
     draw64 \<lparr>buffer64 = 0, cutoff64 = 1 / 4, radius64 = 8, size64 = 2,
             gridOuter64 = [Fin 0, Fin 0, Fin 0, Fin 0], gridInner64 = [Fin 0, Fin 0, Fin 0, Fin 0],
             f64 = [Fin 0, Fin 0], z64 = [Fin 0, Fin 0, Fin 0], v64 = [0, 0]\<rparr>
            [0, 0, 0, 255, 0, 0, 0, 0]
            \<lparr>width = 2, height = 1, glyphWidth = 2, glyphHeight = 1, glyphTop = 1,
             glyphLeft = 0, glyphAdvance = 2\<rparr> = Inr (g, this') \<and>
     length (data g) = 2 \<and> data g ! 0 = 223 \<and> data g ! 1 = 159 \<and>
     ToUint8Clamp64 (sdf_value64 8 (1 / 4) (Fin 1) (Fin 1)) = 191"
proof -
  define this where "this = \<lparr>buffer64 = 0, cutoff64 = 1 / 4, radius64 = 8, size64 = 2,
             gridOuter64 = [Fin 0, Fin 0, Fin 0, Fin 0], gridInner64 = [Fin 0, Fin 0, Fin 0, Fin 0],
             f64 = [Fin 0, Fin 0], z64 = [Fin 0, Fin 0, Fin 0], v64 = [0, 0]\<rparr>"
  define m where "m = \<lparr>width = 2, height = 1, glyphWidth = 2, glyphHeight = 1, glyphTop = 1,
             glyphLeft = 0, glyphAdvance = 2\<rparr>"
  let ?img = "[0, 0, 0, 255, 0, 0, 0, 0] :: Uint8ClampedArray"
  have m: "width m = 2" "height m = 1" "glyphWidth m = 2" "glyphHeight m = 1"
    by (simp_all add: m_def)
  have t: "radius64 this = 8" "cutoff64 this = 1 / 4"
    "gridOuter64 this = [Fin 0, Fin 0, Fin 0, Fin 0]" "gridInner64 this = [Fin 0, Fin 0, Fin 0, Fin 0]"
    "f64 this = [Fin 0, Fin 0]" "z64 this = [Fin 0, Fin 0, Fin 0]" "v64 this = [0, 0]"
    by (simp_all add: this_def)
  obtain g this' where run: "draw64 this ?img m = Inr (g, this')"
    using draw64_Inr [of m this ?img] by (auto simp: m)
  have gl: "glyphWidth m \<noteq> 0" "glyphHeight m \<noteq> 0"
    by (simp_all add: m)
  have s: "seed64 ?img 2 1 2 1 [Fin 0, Fin 0, Fin 0, Fin 0] [Fin 0, Fin 0, Fin 0, Fin 0] =
      ([Fin 0, Fin INF_val, Fin 0, Fin 0], [Fin INF_val, Fin 0, Fin 0, Fin 0])"
    by code_simp
  have e1: "edt64 [Fin 0, Fin INF_val, Fin 0, Fin 0] 2 1 [Fin 0, Fin 0] [0, 0] [Fin 0, Fin 0, Fin 0] =
      ([Fin 0, Fin 1, Fin 0, Fin 0], [Fin 0, Fin INF_val], [0, 1],
       [Fin (- INF_val), Fin 50000000000000000000, Fin INF_val])"
    by code_simp
  have e2: "edt64 [Fin INF_val, Fin 0, Fin 0, Fin 0] 2 1 [Fin 0, Fin INF_val] [0, 1]
             [Fin (- INF_val), Fin 50000000000000000000, Fin INF_val] =
      ([Fin 1, Fin 0, Fin 0, Fin 0], [Fin INF_val, Fin 0], [0, 1],
       [Fin (- INF_val), Fin (- 50000000000000000000), Fin INF_val])"
    by code_simp
  have grids:
    "gridOuter64 this' = [Fin 0, Fin 1, Fin 0, Fin 0]" "gridInner64 this' = [Fin 1, Fin 0, Fin 0, Fin 0]"
    using draw64_cases [OF run gl] by (auto simp: m t s e1 e2)
  have c0: "get64 (gridOuter64 this') 0 = Fin 0" "get64 (gridInner64 this') 0 = Fin 1"
    and c1: "get64 (gridOuter64 this') 1 = Fin 1" "get64 (gridInner64 this') 1 = Fin 0"
    by (simp_all add: grids get64_def)
  have b0: "ToUint8Clamp64 (Math_round64 (sub64 (Fin 255) (mul64 (Fin 255)
      (add64 (div64 (sub64 (Fin 0) (Fin 1)) (Fin 8)) (Fin (1 / 4)))))) = 223"
    by code_simp
  have b1: "ToUint8Clamp64 (Math_round64 (sub64 (Fin 255) (mul64 (Fin 255)
      (add64 (div64 (sub64 (Fin 1) (Fin 0)) (Fin 8)) (Fin (1 / 4)))))) = 159"
    by code_simp
  have "sub64 (Fin 1) (Fin 1) = Fin 0"
    by code_simp
  then have d0: "sub64 (Math_sqrt64 (Fin 1)) (Math_sqrt64 (Fin 1)) = Fin 0"
    by (simp add: round64_1)
  have "length (data g) = 2" "data g ! 0 = 223"
    using draw64_quantizes [OF run gl, of 0] c0 b0
    by (simp_all add: m t round64_0 round64_1)
  moreover have "data g ! 1 = 159"
    using draw64_quantizes [OF run gl, of 1] c1 b1
    by (simp add: m t round64_0 round64_1)
  moreover have "ToUint8Clamp64 (sdf_value64 8 (1 / 4) (Fin 1) (Fin 1)) = 191"
    using draw64_quantizes [OF run gl, of 0] d0 by (simp add: m)
  ultimately show ?thesis
    using run unfolding this_def m_def by blast
qed

text \<open>
  Claim C6, as the specification states it, fails: for metrics of zero glyph width and
  glyph height 5 on a canvas of 6 by 11 the glyph that \<open>draw\<close> returns keeps the glyph height
  5, and its data buffer has 66 bytes.
\<close>

theorem draw_empty_glyph_keeps_metrics:
  "draw \<lparr>buffer = 3, cutoff = 1 / 4, radius = 8, this_size = 36,
         gridOuter = replicate 1296 (Num 0), gridInner = replicate 1296 (Num 0),
         this_f = replicate 36 (Num 0), this_z = replicate 37 (Num 0),
         this_v = replicate 36 0\<rparr>
        []
        \<lparr>width = 6, height = 11, glyphWidth = 0, glyphHeight = 5, glyphTop = 4,
         glyphLeft = 0, glyphAdvance = 0\<rparr>
     = Inr (\<lparr>width = 6, height = 11, glyphWidth = 0, glyphHeight = 5, glyphTop = 4,
             glyphLeft = 0, glyphAdvance = 0, data = replicate 66 0\<rparr>,
            \<lparr>buffer = 3, cutoff = 1 / 4, radius = 8, this_size = 36,
             gridOuter = replicate 1296 (Num 0), gridInner = replicate 1296 (Num 0),
             this_f = replicate 36 (Num 0), this_z = replicate 37 (Num 0),
             this_v = replicate 36 0\<rparr>) \<and>
   glyphHeight \<lparr>width = 6, height = 11, glyphWidth = 0, glyphHeight = 5, glyphTop = 4,
                glyphLeft = 0, glyphAdvance = 0, data = replicate 66 (0 :: 8 word)\<rparr> \<noteq> 0 \<and>
   data \<lparr>width = 6, height = 11, glyphWidth = 0, glyphHeight = 5, glyphTop = 4,
         glyphLeft = 0, glyphAdvance = 0, data = replicate 66 (0 :: 8 word)\<rparr> \<noteq> []"
  by (simp add: draw_def metrics.defs glyph.defs)

text \<open>
  Claim C6, amended.  For metrics with zero glyph width or zero glyph height, \<open>draw\<close> returns
  a glyph that carries the metrics as they are and a data buffer of \<open>width * height\<close> bytes,
  all 0.  The generator is returned as it was, grids and scratch buffers untouched, and the
  result does not depend on the rasterizer's bytes.
\<close>

theorem draw_empty_glyph:
  assumes "glyphWidth m = 0 \<or> glyphHeight m = 0" "0 \<le> width m * height m"
  shows "\<exists>g. draw this img m = Inr (g, this) \<and>
           draw this img' m = Inr (g, this) \<and>
           metrics.truncate g = m \<and>
           data g = replicate (nat (width m * height m)) 0"
  using assms by (auto simp: draw_def Let_def metrics.defs glyph.defs)

theorem draw_empty_glyph_witness:
  "\<exists>g. draw \<lparr>buffer = 3, cutoff = 1 / 4, radius = 8, this_size = 36,
             gridOuter = replicate 1296 (Num 0), gridInner = replicate 1296 (Num 0),
             this_f = replicate 36 (Num 0), this_z = replicate 37 (Num 0),
             this_v = replicate 36 0\<rparr>
           []
           \<lparr>width = 6, height = 6, glyphWidth = 0, glyphHeight = 0, glyphTop = 0,
            glyphLeft = 0, glyphAdvance = 6\<rparr>
        = Inr (g, \<lparr>buffer = 3, cutoff = 1 / 4, radius = 8, this_size = 36,
                   gridOuter = replicate 1296 (Num 0), gridInner = replicate 1296 (Num 0),
                   this_f = replicate 36 (Num 0), this_z = replicate 37 (Num 0),
                   this_v = replicate 36 0\<rparr>) \<and>
        metrics.truncate g = \<lparr>width = 6, height = 6, glyphWidth = 0, glyphHeight = 0,
                               glyphTop = 0, glyphLeft = 0, glyphAdvance = 6\<rparr> \<and>
        data g = replicate 36 0"
  using draw_empty_glyph [of "\<lparr>width = 6, height = 6, glyphWidth = 0, glyphHeight = 0,
                               glyphTop = 0, glyphLeft = 0, glyphAdvance = 6\<rparr>"
      "\<lparr>buffer = 3, cutoff = 1 / 4, radius = 8, this_size = 36,
             gridOuter = replicate 1296 (Num 0), gridInner = replicate 1296 (Num 0),
             this_f = replicate 36 (Num 0), this_z = replicate 37 (Num 0),
             this_v = replicate 36 0\<rparr>" "[]" "[]"]
  by simp

text \<open>
  Claim C2 fails on the code for a glyph that is clipped.  The generator of the default
  options has \<open>size = 24 + 3 * 4 = 36\<close> and grids of \<open>36 * 36 = 1296\<close> cells.  For a glyph
  that overflows the canvas in both directions \<open>getMetrics\<close> returns the glyph width and
  height \<open>size - buffer = 33\<close> and a canvas of \<open>39\<close> by \<open>39 = 1521\<close> cells.  Cell
  \<open>(9, 33)\<close>, of index 1296, lies in the glyph's rectangle under a pixel of alpha 1, where
  the claim has 0 in \<open>gridOuter\<close> and the sentinel in \<open>gridInner\<close>; cell \<open>(0, 38)\<close> lies
  outside, where the claim has the sentinel and 0.  The seeding of \<open>draw\<close> leaves both
  cells \<open>undefined\<close> in both grids: the grids end before them.
\<close>

theorem seed64_clipped_glyph:
  "cell64 (fst (seed64 (concat (replicate 1089 [0, 0, 0, 255])) 39 39 33 33
                  (replicate 1296 (Fin 0)) (replicate 1296 (Fin 0)))) 39 9 33 = NaN64 \<and>
   cell64 (snd (seed64 (concat (replicate 1089 [0, 0, 0, 255])) 39 39 33 33
                  (replicate 1296 (Fin 0)) (replicate 1296 (Fin 0)))) 39 9 33 = NaN64 \<and>
   cell64 (fst (seed64 (concat (replicate 1089 [0, 0, 0, 255])) 39 39 33 33
                  (replicate 1296 (Fin 0)) (replicate 1296 (Fin 0)))) 39 0 38 = NaN64 \<and>
   cell64 (snd (seed64 (concat (replicate 1089 [0, 0, 0, 255])) 39 39 33 33
                  (replicate 1296 (Fin 0)) (replicate 1296 (Fin 0)))) 39 0 38 = NaN64 \<and>
   alpha64 (concat (replicate 1089 [0, 0, 0, 255])) 33 (9 - 3) (33 - 3) = Fin 1 \<and>
   outer_cost64 (Fin 1) = Fin 0 \<and> inner_cost64 (Fin 1) = Fin INF_val"
proof -
  let ?img = "concat (replicate 1089 [0, 0, 0, 255]) :: Uint8ClampedArray"
  let ?g = "replicate 1296 (Fin 0)"
  obtain outer inner where run: "seed64 ?img 39 39 33 33 ?g ?g = (outer, inner)"
    by fastforce
  note c = seed64_cells [OF _ _ _ run]
  have "cell64 outer 39 9 33 = NaN64" "cell64 inner 39 9 33 = NaN64"
    "cell64 outer 39 0 38 = NaN64" "cell64 inner 39 0 38 = NaN64"
    using c [of 9 33] c [of 0 38] by simp_all
  moreover have "alpha64 ?img 33 (9 - 3) (33 - 3) = Fin 1"
  proof -
    have "?img ! 3987 = 255"
      by (subst nth_concat_replicate) simp_all
    moreover have "div64 (Fin 255) (Fin 255) = Fin 1"
      by code_simp
    ultimately show ?thesis
      by (simp add: alpha64_def u8_at_def int64_def length_concat_replicate)
  qed
  moreover have "outer_cost64 (Fin 1) = Fin 0" "inner_cost64 (Fin 1) = Fin INF_val"
    by (simp_all add: outer_cost64_def inner_cost64_def)
  ultimately show ?thesis
    using run by simp
qed

text \<open>
  Claim C9.  Two runs of \<open>edt1d\<close> that differ only in what the scratch buffers \<open>f\<close>, \<open>v\<close> and
  \<open>z\<close> hold at the start return the same grid, since a pass reads no scratch cell that it
  has not written before; and so do two runs of \<open>edt\<close>, and two calls of \<open>draw\<close> return the
  same glyph and the same two grids.  The lines are no longer than the sentinel \<open>1e20\<close>,
  at which the cursor of the output pass stops.
\<close>

theorem scratch_contents_do_not_matter:
  assumes "length f' = length f" "length v' = length v" "length z' = length z"
    and "real_of_int len \<le> INF_val" "real_of_int w \<le> INF_val" "real_of_int h \<le> INF_val"
    and "real_of_int (width m) \<le> INF_val" "real_of_int (height m) \<le> INF_val"
  shows "(\<exists>g f1 v1 z1 f2 v2 z2.
            edt1d grid offset stride len f v z = Inr (g, f1, v1, z1) \<and>
            edt1d grid offset stride len f' v' z' = Inr (g, f2, v2, z2)) \<and>
         (\<exists>g f1 v1 z1 f2 v2 z2.
            edt grid w h f v z = Inr (g, f1, v1, z1) \<and>
            edt grid w h f' v' z' = Inr (g, f2, v2, z2)) \<and>
         map_sum id (\<lambda>(g, t). (g, gridOuter t, gridInner t))
           (draw (this\<lparr>this_f := f, this_v := v, this_z := z\<rparr>) img m) =
         map_sum id (\<lambda>(g, t). (g, gridOuter t, gridInner t))
           (draw (this\<lparr>this_f := f', this_v := v', this_z := z'\<rparr>) img m)"
proof (intro conjI)
  obtain g f1 v1 z1 where run: "edt1d grid offset stride len f v z = Inr (g, f1, v1, z1)"
    using edt1d_Inr by blast
  then show "\<exists>g f1 v1 z1 f2 v2 z2.
            edt1d grid offset stride len f v z = Inr (g, f1, v1, z1) \<and>
            edt1d grid offset stride len f' v' z' = Inr (g, f2, v2, z2)"
    using edt1d_same [OF assms(1-4) run] by blast
next
  obtain g f1 v1 z1 where run: "edt grid w h f v z = Inr (g, f1, v1, z1)"
    using edt_Inr by blast
  then show "\<exists>g f1 v1 z1 f2 v2 z2.
            edt grid w h f v z = Inr (g, f1, v1, z1) \<and>
            edt grid w h f' v' z' = Inr (g, f2, v2, z2)"
    using edt_same [OF run assms(1-3,5,6)] by blast
next
  show "map_sum id (\<lambda>(g, t). (g, gridOuter t, gridInner t))
           (draw (this\<lparr>this_f := f, this_v := v, this_z := z\<rparr>) img m) =
         map_sum id (\<lambda>(g, t). (g, gridOuter t, gridInner t))
           (draw (this\<lparr>this_f := f', this_v := v', this_z := z'\<rparr>) img m)"
    by (rule draw_same [OF assms(1-3,7,8)])
qed

theorem scratch_contents_do_not_matter_witness:
  "\<exists>g f1 v1 z1 f2 v2 z2.
     edt1d [Num 3, Num 0, Num 5] 0 1 3 [NaN, NaN, NaN] [0, 0, 0] [NaN, NaN, NaN, NaN]
       = Inr (g, f1, v1, z1) \<and>
     edt1d [Num 3, Num 0, Num 5] 0 1 3 [Num 9, Num 8, Num 7] [6, 5, 4] [Num 3, Num 2, Num 1, Num 0]
       = Inr (g, f2, v2, z2)"
proof -
  have "length [Num 9, Num 8, Num 7] = length [NaN, NaN, NaN]"
    "length [6, 5, 4 :: 16 word] = length [0, 0, 0 :: 16 word]"
    "length [Num 3, Num 2, Num 1, Num 0] = length [NaN, NaN, NaN, NaN]"
    "real_of_int 3 \<le> INF_val"
    "real_of_int (width \<lparr>width = 3, height = 1, glyphWidth = 1, glyphHeight = 1, glyphTop = 0,
        glyphLeft = 0, glyphAdvance = 1\<rparr>) \<le> INF_val"
    "real_of_int (height \<lparr>width = 3, height = 1, glyphWidth = 1, glyphHeight = 1, glyphTop = 0,
        glyphLeft = 0, glyphAdvance = 1\<rparr>) \<le> INF_val"
    by (simp_all add: INF_val_def)
  from scratch_contents_do_not_matter [OF this(1,2,3,4,4,4,5,6)] show ?thesis
    by blast
qed


end
